theory Spec2Isabelle
  imports Complex_Main "HOL-Library.Sublist" "HOL-Library.List_Lexorder" "HOL-Library.Multiset"
begin

section \<open>Strings\<close>

text \<open>
  A JavaScript string is a sequence of UTF-16 code units. The model uses \<open>string\<close>
  (a \<open>char list\<close>) and reads every \<open>char\<close> as one code unit in the range 0..255,
  so it covers the inputs whose code units all lie in that range. Every delimiter the
  program looks for (\<open>/\<close>, \<open>.\<close>) is in that range.
\<close>

text \<open>\<open>toLowerCase\<close> on these code units: the letters A to Z, and the upper-case letters of
  the range 0xC0..0xDE (0xD7 is the multiplication sign), each 0x20 below its lower-case
  form.\<close>

definition upperUnits :: string where
  "upperUnits = ''ABCDEFGHIJKLMNOPQRSTUVWXYZ'' @
       [CHR 0xC0, CHR 0xC1, CHR 0xC2, CHR 0xC3, CHR 0xC4, CHR 0xC5, CHR 0xC6, CHR 0xC7,
        CHR 0xC8, CHR 0xC9, CHR 0xCA, CHR 0xCB, CHR 0xCC, CHR 0xCD, CHR 0xCE, CHR 0xCF,
        CHR 0xD0, CHR 0xD1, CHR 0xD2, CHR 0xD3, CHR 0xD4, CHR 0xD5, CHR 0xD6, CHR 0xD8,
        CHR 0xD9, CHR 0xDA, CHR 0xDB, CHR 0xDC, CHR 0xDD, CHR 0xDE]"

definition lowerUnits :: string where
  "lowerUnits = ''abcdefghijklmnopqrstuvwxyz'' @
       [CHR 0xE0, CHR 0xE1, CHR 0xE2, CHR 0xE3, CHR 0xE4, CHR 0xE5, CHR 0xE6, CHR 0xE7,
        CHR 0xE8, CHR 0xE9, CHR 0xEA, CHR 0xEB, CHR 0xEC, CHR 0xED, CHR 0xEE, CHR 0xEF,
        CHR 0xF0, CHR 0xF1, CHR 0xF2, CHR 0xF3, CHR 0xF4, CHR 0xF5, CHR 0xF6, CHR 0xF8,
        CHR 0xF9, CHR 0xFA, CHR 0xFB, CHR 0xFC, CHR 0xFD, CHR 0xFE]"

definition toLowerCase_unit :: "char \<Rightarrow> char" where
  "toLowerCase_unit c = (case map_of (zip upperUnits lowerUnits) c of Some l \<Rightarrow> l | None \<Rightarrow> c)"

definition toLowerCase :: "string \<Rightarrow> string" where
  "toLowerCase s = map toLowerCase_unit s"

definition startsWith :: "string \<Rightarrow> string \<Rightarrow> bool" where
  "startsWith s p = prefix p s"

definition endsWith :: "string \<Rightarrow> string \<Rightarrow> bool" where
  "endsWith s p = suffix p s"

fun includes_str :: "string \<Rightarrow> string \<Rightarrow> bool" where
  "includes_str [] sub = (sub = [])"
| "includes_str (c # s) sub = (prefix sub (c # s) \<or> includes_str s sub)"

text \<open>\<open>s.split(c)\<close> for a one-character separator: never the empty list;
  \<open>''''.split('/')\<close> is \<open>['''']\<close>.\<close>

fun js_split :: "char \<Rightarrow> string \<Rightarrow> string list" where
  "js_split c [] = [[]]"
| "js_split c (x # xs) =
     (if x = c then [] # js_split c xs
      else (case js_split c xs of s # ss \<Rightarrow> (x # s) # ss | [] \<Rightarrow> [[x]]))"

fun js_join :: "string \<Rightarrow> string list \<Rightarrow> string" where
  "js_join sep [] = []"
| "js_join sep [x] = x"
| "js_join sep (x # y # ys) = x @ sep @ js_join sep (y # ys)"

text \<open>Decimal rendering of a non-negative integer, as template literals print it.\<close>

definition digit :: "nat \<Rightarrow> char" where
  "digit d = (if d = 0 then CHR ''0'' else if d = 1 then CHR ''1'' else if d = 2 then CHR ''2''
     else if d = 3 then CHR ''3'' else if d = 4 then CHR ''4'' else if d = 5 then CHR ''5''
     else if d = 6 then CHR ''6'' else if d = 7 then CHR ''7'' else if d = 8 then CHR ''8''
     else CHR ''9'')"

fun toString_nat :: "nat \<Rightarrow> string" where
  "toString_nat n =
     (if n < 10 then [digit n] else toString_nat (n div 10) @ [digit (n mod 10)])"

declare toString_nat.simps [simp del]

section \<open>GitHubService\<close>

datatype file_type = File | Dir

text \<open>\<open>GitHubFile\<close>: the fields the program reads (\<open>name\<close>, \<open>path\<close>, \<open>type\<close>) and
  \<open>sha\<close>, \<open>size\<close> (here \<open>size_bytes\<close>) to tell two entries of one path apart. The URL
  fields, \<open>content\<close> and \<open>encoding\<close> are never read by the functions below.
  \<open>RepoInfo\<close>: the interface has \<open>branch\<close> optional; \<open>parseRepoUrl\<close>, which makes every
  \<open>RepoInfo\<close> of the program, always sets it.\<close>

record GitHubFile =
  name :: string
  path :: string
  sha :: string
  size_bytes :: nat
  type :: file_type

record RepoInfo =
  owner :: string
  repo :: string
  branch :: string

subsection \<open>parseRepoUrl\<close>

definition notSlash :: "char \<Rightarrow> bool" where
  "notSlash c = (c \<noteq> CHR ''/'')"

text \<open>
  The first pattern, \<open>github\.com\/([^\/]+)\/([^\/]+)(?:\/tree\/([^\/]+))?\<close>, tried at the
  start of \<open>s\<close>. A greedy \<open>[^\/]+\<close> takes the longest run without a slash, and a shorter run
  never helps: what follows the run must be a slash (groups 1 and 3) or may be anything
  (group 2, where the optional part is dropped when it does not match). The result holds
  the groups 1, 2 and 3; group 3 is \<open>None\<close> when the optional part took no part.
\<close>

definition hostPattern_at :: "string \<Rightarrow> (string \<times> string \<times> string option) option" where
  "hostPattern_at s =
     (if prefix ''github.com/'' s then
        (let r1 = drop 11 s;
             g1 = takeWhile notSlash r1;
             r2 = dropWhile notSlash r1
         in if g1 \<noteq> [] \<and> r2 \<noteq> [] then
              (let r3 = tl r2;
                   g2 = takeWhile notSlash r3;
                   r4 = dropWhile notSlash r3;
                   g3 = takeWhile notSlash (drop 6 r4)
               in if g2 \<noteq> [] then
                    Some (g1, g2, if prefix ''/tree/'' r4 \<and> g3 \<noteq> [] then Some g3 else None)
                  else None)
            else None)
      else None)"

text \<open>The pattern is not anchored: \<open>url.match\<close> returns the leftmost match.\<close>

fun hostPattern :: "string \<Rightarrow> (string \<times> string \<times> string option) option" where
  "hostPattern [] = hostPattern_at []"
| "hostPattern (c # s) =
     (case hostPattern_at (c # s) of Some m \<Rightarrow> Some m | None \<Rightarrow> hostPattern s)"

text \<open>The second pattern, \<open>^([^\/]+)\/([^\/]+)$\<close>: the whole string.\<close>

definition barePattern :: "string \<Rightarrow> (string \<times> string \<times> string option) option" where
  "barePattern s =
     (let g1 = takeWhile notSlash s;
          r = dropWhile notSlash s
      in if g1 \<noteq> [] \<and> r \<noteq> [] \<and> tl r \<noteq> [] \<and> list_all notSlash (tl r)
         then Some (g1, tl r, None) else None)"

text \<open>The loop over the two patterns: the first that matches.\<close>

definition matchRepoUrl :: "string \<Rightarrow> (string \<times> string \<times> string option) option" where
  "matchRepoUrl url =
     (case hostPattern url of Some m \<Rightarrow> Some m | None \<Rightarrow> barePattern url)"

text \<open>\<open>s.replace(/\.git$/, '')\<close>: the pattern can only match the last four code units.\<close>

definition stripGit :: "string \<Rightarrow> string" where
  "stripGit s = (if endsWith s ''.git'' then take (length s - 4) s else s)"

text \<open>\<open>match[3] || 'main'\<close>: an absent group and the empty string are both falsy.\<close>

definition orMain :: "string option \<Rightarrow> string" where
  "orMain g = (case g of None \<Rightarrow> ''main'' | Some b \<Rightarrow> if b = [] then ''main'' else b)"

definition parseRepoUrl :: "string \<Rightarrow> RepoInfo option" where
  "parseRepoUrl url =
     (case matchRepoUrl url of
        Some (g1, g2, g3) \<Rightarrow> Some \<lparr>owner = g1, repo = stripGit g2, branch = orMain g3\<rparr>
      | None \<Rightarrow> None)"

subsection \<open>isTextFile\<close>

definition textExtensions :: "string list" where
  "textExtensions =
     [''.js'', ''.jsx'', ''.ts'', ''.tsx'', ''.json'', ''.md'', ''.txt'', ''.yml'', ''.yaml'',
      ''.html'', ''.htm'', ''.css'', ''.scss'', ''.sass'', ''.less'', ''.xml'', ''.svg'',
      ''.py'', ''.java'', ''.c'', ''.cpp'', ''.h'', ''.hpp'', ''.cs'', ''.php'', ''.rb'',
      ''.go'', ''.rs'', ''.swift'', ''.kt'', ''.scala'', ''.sh'', ''.bash'', ''.zsh'',
      ''.sql'', ''.r'', ''.matlab'', ''.m'', ''.pl'', ''.lua'', ''.dart'', ''.vue'',
      ''.toml'', ''.ini'', ''.cfg'', ''.conf'', ''.env'', ''.gitignore'', ''.dockerignore'',
      ''Dockerfile'', ''README'', ''LICENSE'', ''CHANGELOG'']"

definition isTextFile :: "string \<Rightarrow> bool" where
  "isTextFile filename =
     (let lowerName = toLowerCase filename
      in list_ex (\<lambda>ext. endsWith lowerName ext
                      \<or> lowerName = drop 1 ext
                      \<or> (startsWith ext ''.'' \<and> includes_str lowerName ext))
           textExtensions)"

subsection \<open>shouldIncludeFile\<close>

text \<open>
  The exclude patterns are regular expressions made of literal characters, one optional
  character (\<open>logs?\<close>) and an end anchor \<open>$\<close> (no \<open>m\<close> flag: the end of the input).
  \<open>pattern.test(path)\<close> holds when the pattern matches at some position.
\<close>

datatype atom = Lit char | Opt char

record pattern =
  atoms :: "atom list"
  anchored :: bool

fun match_here :: "atom list \<Rightarrow> bool \<Rightarrow> string \<Rightarrow> bool" where
  "match_here [] anch s = (if anch then s = [] else True)"
| "match_here (Lit c # as) anch s =
     (case s of [] \<Rightarrow> False | x # xs \<Rightarrow> x = c \<and> match_here as anch xs)"
| "match_here (Opt c # as) anch s =
     ((case s of [] \<Rightarrow> False | x # xs \<Rightarrow> x = c \<and> match_here as anch xs)
      \<or> match_here as anch s)"

fun test_from :: "pattern \<Rightarrow> string \<Rightarrow> bool" where
  "test_from p [] = match_here (atoms p) (anchored p) []"
| "test_from p (c # s) = (match_here (atoms p) (anchored p) (c # s) \<or> test_from p s)"

definition lits :: "string \<Rightarrow> pattern" where
  "lits s = \<lparr>atoms = map Lit s, anchored = False\<rparr>"

definition lits_end :: "string \<Rightarrow> pattern" where
  "lits_end s = \<lparr>atoms = map Lit s, anchored = True\<rparr>"

definition excludePatterns :: "pattern list" where
  "excludePatterns =
     [lits ''node_modules'', lits ''.git'', lits ''.DS_Store'', lits ''.vscode'',
      lits ''.idea'', lits ''dist'', lits ''build'', lits ''out'', lits ''target'',
      lits ''bin'', lits ''obj'', lits ''.next'', lits ''coverage'', lits ''.nyc_output'',
      \<lparr>atoms = map Lit ''log'' @ [Opt (CHR ''s'')], anchored = False\<rparr>,
      lits_end ''.log'', lits_end ''.lock'', lits_end ''package-lock.json'',
      lits_end ''yarn.lock'', lits_end ''pnpm-lock.yaml'', lits_end ''bun.lockb'']"

definition shouldIncludeFile :: "string \<Rightarrow> bool" where
  "shouldIncludeFile p = (\<not> list_ex (\<lambda>pat. test_from pat p) excludePatterns)"

subsection \<open>The filter of fetchRepository\<close>

definition textFiles :: "GitHubFile list \<Rightarrow> GitHubFile list" where
  "textFiles tree =
     filter (\<lambda>file. type file = File \<and> isTextFile (name file) \<and> shouldIncludeFile (path file))
       tree"

section \<open>FileTreeSelector\<close>

subsection \<open>buildTree\<close>

text \<open>
  \<open>buildTree\<close> creates node objects, stores each in \<open>nodeMap\<close> under its path and pushes
  the same object onto \<open>root\<close> or onto the \<open>children\<close> array of its parent, which it finds
  through \<open>nodeMap\<close> and changes in place. The model is a store: \<open>nodeMap\<close> maps a path
  to the node object registered under it, and a reference to an object (in \<open>root\<close>, in
  \<open>children\<close>) is the path it is registered under. A key that is present is never
  written again, so a path denotes one object during the whole run. The fields of
  \<open>TreeNode\<close> are \<open>name\<close>, \<open>path\<close>, \<open>type\<close>, \<open>children\<close> and \<open>file\<close> in the source, and
  \<open>rootNodes\<close> is its \<open>root\<close>.
\<close>

record TreeNode =
  node_name :: string
  node_path :: string
  node_type :: file_type
  children :: "string list"
  node_file :: "GitHubFile option"

record builder =
  rootNodes :: "string list"
  nodeMap :: "string \<rightharpoonup> TreeNode"

text \<open>The callback of \<open>parts.forEach\<close>, on the local variable \<open>currentPath\<close> and the
  store. The parent is looked up after the new node is registered, as in the source.\<close>

fun visit :: "GitHubFile \<Rightarrow> string list \<Rightarrow> string \<times> builder \<Rightarrow> nat \<times> string \<Rightarrow> string \<times> builder" where
  "visit file parts (currentPath, b) (index, part) =
     (let isLast = (index = length parts - 1);
          currentPath1 = (if currentPath \<noteq> [] then currentPath @ ''/'' @ part else part)
      in if nodeMap b currentPath1 = None then
           (let node = \<lparr>node_name = part, node_path = currentPath1,
                         node_type = (if isLast \<and> type file = File then File else Dir),
                         children = [],
                         node_file = (if isLast \<and> type file = File then Some file else None)\<rparr>;
                b1 = b\<lparr>nodeMap := (nodeMap b)(currentPath1 \<mapsto> node)\<rparr>
            in if index = 0 then (currentPath1, b1\<lparr>rootNodes := rootNodes b1 @ [currentPath1]\<rparr>)
               else
                 (let parentPath = js_join ''/'' (take index parts)
                  in case nodeMap b1 parentPath of
                       Some parentNode \<Rightarrow>
                         (currentPath1,
                          b1\<lparr>nodeMap := (nodeMap b1)(parentPath \<mapsto>
                                 parentNode\<lparr>children := children parentNode @ [currentPath1]\<rparr>)\<rparr>)
                     | None \<Rightarrow> (currentPath1, b1)))
         else (currentPath1, b))"

declare visit.simps [simp del]

text \<open>The callback of \<open>sortedFiles.forEach\<close>.\<close>

definition addFile :: "builder \<Rightarrow> GitHubFile \<Rightarrow> builder" where
  "addFile b file =
     (let parts = js_split (CHR ''/'') (path file)
      in snd (foldl (visit file parts) ([], b) (enumerate 0 parts)))"

text \<open>
  \<open>[...files].sort((a, b) => a.path.localeCompare(b.path))\<close>: the sort is stable, and
  \<open>localeCompare\<close> orders strings by the collation of the host's locale, which is not part
  of the repository. The collation is a parameter: \<open>collate\<close> maps a string to its sort
  key in a linear order. The result is the \<open>root\<close> array together with the store that
  its references point into.
\<close>

definition buildTree :: "(string \<Rightarrow> 'k::linorder) \<Rightarrow> GitHubFile list \<Rightarrow> builder" where
  "buildTree collate files =
     foldl addFile \<lparr>rootNodes = [], nodeMap = Map.empty\<rparr>
       (sort_key (\<lambda>f. collate (path f)) files)"

text \<open>A collation for concrete runs: by code unit, the shorter string first.\<close>

definition codeUnits :: "string \<Rightarrow> nat list" where
  "codeUnits s = map of_char s"

subsection \<open>The nodes of the tree\<close>

text \<open>What can be reached from the \<open>root\<close> array through \<open>children\<close>.\<close>

inductive reach :: "builder \<Rightarrow> string \<Rightarrow> bool" for b :: builder where
  reach_root: "k \<in> set (rootNodes b) \<Longrightarrow> reach b k"
| reach_child: "reach b p \<Longrightarrow> nodeMap b p = Some n \<Longrightarrow> k \<in> set (children n) \<Longrightarrow> reach b k"

definition inTree :: "builder \<Rightarrow> TreeNode \<Rightarrow> bool" where
  "inTree b n = (\<exists>k. reach b k \<and> nodeMap b k = Some n)"

definition segments :: "GitHubFile \<Rightarrow> string list" where
  "segments f = js_split (CHR ''/'') (path f)"

definition prefixPath :: "GitHubFile \<Rightarrow> nat \<Rightarrow> string" where
  "prefixPath f i = js_join ''/'' (take i (segments f))"

definition relativePath :: "string \<Rightarrow> bool" where
  "relativePath p = (p \<noteq> [] \<and> hd p \<noteq> CHR ''/'')"

section \<open>RepoAnalyzer\<close>

subsection \<open>getFileExtension\<close>

definition extMap :: "(string \<times> string) list" where
  "extMap =
     [(''js'', ''javascript''), (''jsx'', ''jsx''), (''ts'', ''typescript''), (''tsx'', ''tsx''),
      (''py'', ''python''), (''java'', ''java''), (''cpp'', ''cpp''), (''c'', ''c''),
      (''cs'', ''csharp''), (''php'', ''php''), (''rb'', ''ruby''), (''go'', ''go''),
      (''rs'', ''rust''), (''swift'', ''swift''), (''kt'', ''kotlin''), (''scala'', ''scala''),
      (''sh'', ''bash''), (''yml'', ''yaml''), (''yaml'', ''yaml''), (''json'', ''json''),
      (''xml'', ''xml''), (''html'', ''html''), (''css'', ''css''), (''scss'', ''scss''),
      (''sass'', ''sass''), (''md'', ''markdown'')]"

text \<open>
  \<open>extMap\<close> is an object literal, so \<open>extMap[ext]\<close> also finds what the object inherits from
  \<open>Object.prototype\<close>. The key is lower-cased, and \<open>constructor\<close> and \<open>__proto__\<close> are the
  only inherited names without an upper-case letter. What the lookup finds there is an
  object, not a string; the table holds the text that the template literal of
  \<open>generateOutput\<close> prints for it (the text of the native function as V8 prints it).
\<close>

definition inherited :: "(string \<times> string) list" where
  "inherited =
     [(''constructor'', ''function Object() { [native code] }''),
      (''__proto__'', ''[object Object]'')]"

text \<open>\<open>filename.split('.').pop()\<close> is the last element: \<open>split\<close> never returns an empty
  array. Every value of the two tables is truthy, so \<open>extMap[ext] || ext\<close> is \<open>ext\<close> only
  when the key is missing.\<close>

definition getFileExtension :: "string \<Rightarrow> string" where
  "getFileExtension filename =
     (let ext = toLowerCase (last (js_split (CHR ''.'') filename))
      in if ext \<noteq> [] then
           (case map_of extMap ext of
              Some tag \<Rightarrow> tag
            | None \<Rightarrow> (case map_of inherited ext of Some text \<Rightarrow> text | None \<Rightarrow> ext))
         else [])"

subsection \<open>The state of the component and its collaborators\<close>

datatype variant = Default | Destructive

record toast =
  title :: string
  description :: string
  variant :: variant

text \<open>The effects whose order matters: a request of a file's content (by path), an update
  of the progress bar, and a wait of so many milliseconds on a timer.\<close>

datatype event = Request string | Progress real | Wait nat

text \<open>The \<open>useState\<close> cells that \<open>generateOutput\<close> reads or writes, the notifications
  shown so far and the effects in the order they happened. \<open>progress\<close> is a JavaScript number; the model
  computes it in the reals, without the rounding of doubles.\<close>

record app =
  files :: "GitHubFile list"
  selectedFiles :: "string set"
  loading :: bool
  progress :: real
  result :: string
  repoInfo :: "RepoInfo option"
  toasts :: "toast list"
  effects :: "event list"

text \<open>What a rejected promise carries: an \<open>Error\<close> with its message, or any other value.\<close>

datatype thrown = Error string | NonError

text \<open>
  The collaborators: \<open>GitHubService.fetchFileContent(owner, repo, path, branch)\<close>, which
  returns the content or throws (the answer of the network is taken to depend on the
  request only); the text of \<open>new Date().toISOString()\<close>; and the message of the
  \<open>TypeError\<close> that reading a property of \<open>null\<close> throws.
\<close>

record env =
  fetchFileContent :: "string \<Rightarrow> string \<Rightarrow> string \<Rightarrow> string \<Rightarrow> thrown + string"
  now :: string
  nullMessage :: string

definition errorMessage :: "thrown \<Rightarrow> string" where
  "errorMessage e = (case e of Error m \<Rightarrow> m | NonError \<Rightarrow> ''Unknown error'')"

definition setProgress :: "real \<Rightarrow> app \<Rightarrow> app" where
  "setProgress p s = s\<lparr>progress := p, effects := effects s @ [Progress p]\<rparr>"

definition showToast :: "toast \<Rightarrow> app \<Rightarrow> app" where
  "showToast t s = s\<lparr>toasts := toasts s @ [t]\<rparr>"

subsection \<open>generateOutput\<close>

text \<open>The body of the \<open>for\<close> loop, on the local variables \<open>output\<close> and \<open>processedFiles\<close>
  and the state: the \<open>try\<close> branch when the fetch returns, the \<open>catch\<close> branch when it
  throws.\<close>

fun forOf :: "env \<Rightarrow> RepoInfo \<Rightarrow> nat \<Rightarrow> GitHubFile list \<Rightarrow> string \<times> nat \<times> app \<Rightarrow> string \<times> nat \<times> app" where
  "forOf e r totalFiles [] acc = acc"
| "forOf e r totalFiles (file # rest) (output, processedFiles, s) =
     (let s1 = s\<lparr>effects := effects s @ [Request (path file)]\<rparr>
      in case fetchFileContent e (owner r) (repo r) (path file) (branch r) of
           Inr content \<Rightarrow>
             (let output1 = output @ ''## File: '' @ path file @ ''\<newline>\<newline>'';
                  output2 = output1 @ ''```'' @ getFileExtension (name file) @ ''\<newline>'';
                  output3 = output2 @ content;
                  output4 = output3 @ ''\<newline>```\<newline>\<newline>'';
                  processedFiles1 = processedFiles + 1;
                  s2 = setProgress (real processedFiles1 / real totalFiles * 100) s1;
                  s3 = s2\<lparr>effects := effects s2 @ [Wait 100]\<rparr>
              in forOf e r totalFiles rest (output4, processedFiles1, s3))
         | Inl error \<Rightarrow>
             (let output1 = output @ ''## File: '' @ path file @ ''\<newline>\<newline>'';
                  output2 = output1 @ ''Error fetching file content: '' @ errorMessage error
                            @ ''\<newline>\<newline>'';
                  processedFiles1 = processedFiles + 1;
                  s2 = setProgress (real processedFiles1 / real totalFiles * 100) s1
              in forOf e r totalFiles rest (output2, processedFiles1, s2)))"

definition header :: "env \<Rightarrow> RepoInfo \<Rightarrow> nat \<Rightarrow> string" where
  "header e r totalFiles =
     ''# '' @ owner r @ ''/'' @ repo r @ ''\<newline>\<newline>''
     @ ''Repository: https://github.com/'' @ owner r @ ''/'' @ repo r @ ''\<newline>''
     @ ''Branch: '' @ branch r @ ''\<newline>''
     @ ''Generated: '' @ now e @ ''\<newline>''
     @ ''Files included: '' @ toString_nat totalFiles @ ''\<newline>\<newline>''
     @ ''---\<newline>\<newline>''"

text \<open>
  \<open>generateOutput\<close>. With no repository loaded \<open>repoInfo\<close> is \<open>null\<close>, and building the
  header throws into the outer \<open>catch\<close>. The \<open>finally\<close> block runs on both paths.
\<close>

definition generateOutput :: "env \<Rightarrow> app \<Rightarrow> app" where
  "generateOutput e s =
     (if selectedFiles s = {} then
        showToast \<lparr>title = ''Error'', description = ''Please select at least one file'',
                   variant = Destructive\<rparr> s
      else
        (let s1 = setProgress 0 (s\<lparr>loading := True\<rparr>);
             selectedFilesList = filter (\<lambda>f. path f \<in> selectedFiles s1) (files s1);
             totalFiles = length selectedFilesList;
             s2 = (case repoInfo s1 of
                     None \<Rightarrow>
                       showToast \<lparr>title = ''Error'',
                                  description = ''Failed to generate output: '' @ nullMessage e,
                                  variant = Destructive\<rparr> s1
                   | Some r \<Rightarrow>
                       (case forOf e r totalFiles selectedFilesList (header e r totalFiles, 0, s1) of
                          (output, processedFiles, s') \<Rightarrow>
                            showToast \<lparr>title = ''Success'',
                                       description = ''Generated text from ''
                                         @ toString_nat processedFiles @ '' files'',
                                       variant = Default\<rparr>
                              (s'\<lparr>result := output\<rparr>)))
         in setProgress 0 (s2\<lparr>loading := False\<rparr>)))"

subsection \<open>What the bundle holds for one file\<close>

definition fileSection :: "env \<Rightarrow> RepoInfo \<Rightarrow> GitHubFile \<Rightarrow> string" where
  "fileSection e r file =
     (case fetchFileContent e (owner r) (repo r) (path file) (branch r) of
        Inr content \<Rightarrow>
          ''## File: '' @ path file @ ''\<newline>\<newline>''
          @ ''```'' @ getFileExtension (name file) @ ''\<newline>'' @ content @ ''\<newline>```\<newline>\<newline>''
      | Inl error \<Rightarrow>
          ''## File: '' @ path file @ ''\<newline>\<newline>''
          @ ''Error fetching file content: '' @ errorMessage error @ ''\<newline>\<newline>'')"

definition selectedFilesList :: "app \<Rightarrow> GitHubFile list" where
  "selectedFilesList s = filter (\<lambda>f. path f \<in> selectedFiles s) (files s)"

definition requests :: "event list \<Rightarrow> string list" where
  "requests evs = concat (map (\<lambda>ev. case ev of Request p \<Rightarrow> [p] | _ \<Rightarrow> []) evs)"

section \<open>Shapes of a repository reference\<close>

text \<open>
  The shapes that the specification names. A segment (an owner, a repo, a branch) is a
  non-empty string without a slash. \<open>bareShape\<close> is the shorthand \<open>owner/repo\<close>.
  \<open>hostUrlShape\<close> is a string that ends in \<open>github.com/owner/repo\<close> or in
  \<open>github.com/owner/repo/tree/branch\<close>, after any scheme and host prefix. \<open>mentionsRepo\<close>
  is weaker: \<open>github.com/owner/repo\<close> stands somewhere in the string.
\<close>

definition segment :: "string \<Rightarrow> bool" where
  "segment s = (s \<noteq> [] \<and> list_all notSlash s)"

definition bareShape :: "string \<Rightarrow> bool" where
  "bareShape url = (\<exists>ow rp. url = ow @ ''/'' @ rp \<and> segment ow \<and> segment rp)"

definition hostUrlShape :: "string \<Rightarrow> bool" where
  "hostUrlShape url =
     (\<exists>pre ow rp tr. url = pre @ ''github.com/'' @ ow @ ''/'' @ rp @ tr \<and> segment ow \<and> segment rp
        \<and> (tr = [] \<or> (\<exists>br. segment br \<and> tr = ''/tree/'' @ br)))"

definition mentionsRepo :: "string \<Rightarrow> bool" where
  "mentionsRepo url =
     (\<exists>pre ow rp rest. url = pre @ ''github.com/'' @ ow @ ''/'' @ rp @ rest \<and> segment ow \<and> segment rp)"

text \<open>\<open>noHostBefore pre x\<close>: in \<open>pre @ x\<close> no occurrence of \<open>github.com/\<close> starts inside
  \<open>pre\<close>, so that the host of a URL \<open>pre @ x\<close> with \<open>x\<close> starting at the host is the first
  occurrence.\<close>

fun noHostBefore :: "string \<Rightarrow> string \<Rightarrow> bool" where
  "noHostBefore [] x = True"
| "noHostBefore (c # pre) x = (\<not> prefix ''github.com/'' (c # pre @ x) \<and> noHostBefore pre x)"

text \<open>Two auxiliary notions of the proofs: the number of slashes of a string, and a test
  that a string starts with the host and goes on with two segments, or with four of which
  the third is \<open>tree\<close>.\<close>

definition slashes :: "string \<Rightarrow> nat" where
  "slashes s = length (filter (\<lambda>c. c = CHR ''/'') s)"

definition strictHost_at :: "string \<Rightarrow> bool" where
  "strictHost_at s =
     (prefix ''github.com/'' s \<and>
      (let segs = js_split (CHR ''/'') (drop 11 s)
       in length segs = 2 \<or> (length segs = 4 \<and> segs ! 2 = ''tree'')))"

section \<open>The exclude patterns, stated on strings\<close>

text \<open>
  What \<open>shouldIncludeFile\<close> decides, without the regular expression matcher: a path is denied
  when one of the unanchored patterns is a contiguous part of it or one of the anchored
  patterns is a suffix of it. The pattern \<open>logs?\<close> is in a path exactly when \<open>log\<close> is.
\<close>

definition denySubstrings :: "string list" where
  "denySubstrings =
     [''node_modules'', ''.git'', ''.DS_Store'', ''.vscode'', ''.idea'', ''dist'', ''build'',
      ''out'', ''target'', ''bin'', ''obj'', ''.next'', ''coverage'', ''.nyc_output'', ''log'']"

definition denySuffixes :: "string list" where
  "denySuffixes =
     [''.log'', ''.lock'', ''package-lock.json'', ''yarn.lock'', ''pnpm-lock.yaml'', ''bun.lockb'']"

definition denied :: "string \<Rightarrow> bool" where
  "denied p = ((\<exists>w \<in> set denySubstrings. sublist w p) \<or> (\<exists>w \<in> set denySuffixes. suffix w p))"

section \<open>The invariant of buildTree\<close>

text \<open>
  A visit \<open>(g, i)\<close> is the \<open>i\<close>-th step of the inner loop for the entry \<open>g\<close>: it looks at the
  path of the first \<open>i\<close> segments of \<open>g\<close>. \<open>made g i n\<close> says that \<open>n\<close> has the type and the
  entry that this visit gives a node it creates. \<open>Inv K b\<close> holds of the store \<open>b\<close> after
  the visits \<open>K\<close>: every registered node is registered under its own path and was created
  by one of the visits; every visited path is registered; every parent of a child is a
  proper prefix path of an entry; and every registered node is reachable from the root.
\<close>

definition made :: "GitHubFile \<Rightarrow> nat \<Rightarrow> TreeNode \<Rightarrow> bool" where
  "made g i n =
     (node_type n = (if i = length (segments g) \<and> type g = File then File else Dir)
      \<and> node_file n = (if i = length (segments g) \<and> type g = File then Some g else None))"

definition Inv :: "(GitHubFile \<times> nat) set \<Rightarrow> builder \<Rightarrow> bool" where
  "Inv K b =
     ((\<forall>k n. nodeMap b k = Some n \<longrightarrow>
          node_path n = k \<and> (\<exists>g i. (g, i) \<in> K \<and> k = prefixPath g i \<and> made g i n))
      \<and> (\<forall>g i. (g, i) \<in> K \<longrightarrow> nodeMap b (prefixPath g i) \<noteq> None)
      \<and> (\<forall>p n c. nodeMap b p = Some n \<longrightarrow> c \<in> set (children n) \<longrightarrow>
            (\<exists>g i. (g, i) \<in> K \<and> i < length (segments g) \<and> p = prefixPath g i))
      \<and> (\<forall>k n. nodeMap b k = Some n \<longrightarrow> reach b k))"

definition visited :: "GitHubFile list \<Rightarrow> (GitHubFile \<times> nat) set" where
  "visited P = {(g, j). g \<in> set P \<and> 0 < j \<and> j \<le> length (segments g)}"

section \<open>Sample data\<close>

text \<open>Entries, a repository, a network and a session for the concrete runs.\<close>

definition entry :: "string \<Rightarrow> string \<Rightarrow> file_type \<Rightarrow> GitHubFile" where
  "entry n p t = \<lparr>name = n, path = p, sha = ''0'', size_bytes = 1, type = t\<rparr>"

definition file_a :: GitHubFile where
  "file_a = \<lparr>name = ''a.py'', path = ''src/a.py'', sha = ''1'', size_bytes = 8, type = File\<rparr>"

definition file_b :: GitHubFile where
  "file_b = \<lparr>name = ''b.md'', path = ''b.md'', sha = ''2'', size_bytes = 5, type = File\<rparr>"

definition file_x :: GitHubFile where
  "file_x = \<lparr>name = ''x.py'', path = ''x.py'', sha = ''3'', size_bytes = 8, type = File\<rparr>"

definition file_conf :: GitHubFile where
  "file_conf = \<lparr>name = ''conf'', path = ''conf'', sha = ''4'', size_bytes = 3, type = File\<rparr>"

definition acme :: RepoInfo where
  "acme = \<lparr>owner = ''acme'', repo = ''widgets'', branch = ''main''\<rparr>"

text \<open>A network on which the content of \<open>src/a.py\<close> cannot be fetched and every other file
  holds \<open>print(1)\<close>.\<close>

definition net :: env where
  "net = \<lparr>fetchFileContent = (\<lambda>ow rp p br.
             if p = ''src/a.py'' then Inl (Error ''Failed to fetch file: 404 Not Found'')
             else Inr ''print(1)''),
          now = ''2024-01-01T00:00:00.000Z'',
          nullMessage = ''Cannot read properties of null''\<rparr>"

definition session :: "GitHubFile list \<Rightarrow> string set \<Rightarrow> app" where
  "session fs sel = \<lparr>files = fs, selectedFiles = sel, loading = False, progress = 0,
     result = ''old'', repoInfo = Some acme, toasts = [], effects = []\<rparr>"

section \<open>Properties\<close>

subsection \<open>parseRepoUrl\<close>

lemma notSlash_slash [simp]: "\<not> notSlash (CHR ''/'')"
  by (simp add: notSlash_def)

lemma takeWhile_segment:
  "list_all notSlash a \<Longrightarrow> takeWhile notSlash (a @ CHR ''/'' # b) = a"
  by (induction a) auto

lemma dropWhile_segment:
  "list_all notSlash a \<Longrightarrow> dropWhile notSlash (a @ CHR ''/'' # b) = CHR ''/'' # b"
  by (induction a) auto

lemma takeWhile_all: "list_all notSlash a \<Longrightarrow> takeWhile notSlash a = a"
  by (induction a) auto

lemma dropWhile_all: "list_all notSlash a \<Longrightarrow> dropWhile notSlash a = []"
  by (induction a) auto

lemma takeWhile_segment_ne:
  "segment a \<Longrightarrow> takeWhile notSlash (a @ b) \<noteq> []"
  by (cases a) (auto simp: segment_def)

lemma hostPattern_at_exact:
  assumes "segment ow" "segment rp"
  shows "hostPattern_at (''github.com/'' @ ow @ ''/'' @ rp) = Some (ow, rp, None)"
    and "segment br \<Longrightarrow>
         hostPattern_at (''github.com/'' @ ow @ ''/'' @ rp @ ''/tree/'' @ br) = Some (ow, rp, Some br)"
  using assms
  by (simp_all add: hostPattern_at_def segment_def takeWhile_segment dropWhile_segment
        takeWhile_all dropWhile_all)

lemma hostPattern_at_prefix:
  "hostPattern_at s = Some m \<Longrightarrow> prefix ''github.com/'' s"
  by (simp add: hostPattern_at_def split: if_splits)

lemma hostPattern_skip:
  "noHostBefore pre x \<Longrightarrow> hostPattern (pre @ x) = hostPattern x"
proof (induction pre)
  case Nil
  then show ?case by simp
next
  case (Cons p pre)
  have "hostPattern_at (p # pre @ x) = None"
  proof (cases "hostPattern_at (p # pre @ x)")
    case (Some m)
    have "prefix ''github.com/'' (p # pre @ x)"
      by (rule hostPattern_at_prefix [OF Some])
    with Cons.prems show ?thesis by simp
  qed simp
  moreover have "noHostBefore pre x"
    using Cons.prems by simp
  ultimately show ?case
    using Cons.IH by simp
qed

lemma hostPattern_here:
  "hostPattern_at x = Some m \<Longrightarrow> hostPattern x = Some m"
  by (cases x) auto

lemma slashes_segment: "list_all notSlash s \<Longrightarrow> slashes s = 0"
  by (induction s) (auto simp: slashes_def notSlash_def)

lemma slashes_Cons: "slashes (c # s) = (if c = CHR ''/'' then 1 else 0) + slashes s"
  by (simp add: slashes_def)

lemma slashes_append: "slashes (a @ b) = slashes a + slashes b"
  by (simp add: slashes_def)

lemma hostPattern_at_shape:
  assumes "hostPattern_at s = Some (g1, g2, g3)"
  shows "\<exists>rest. s = ''github.com/'' @ g1 @ ''/'' @ g2 @ rest \<and> segment g1 \<and> segment g2"
proof -
  from assms have pre: "prefix ''github.com/'' s"
    by (rule hostPattern_at_prefix)
  define r1 where "r1 = drop 11 s"
  define r2 where "r2 = dropWhile notSlash r1"
  define r3 where "r3 = tl r2"
  from pre have s: "s = ''github.com/'' @ r1"
    unfolding r1_def by (auto simp: prefix_def)
  from assms pre have g1: "g1 = takeWhile notSlash r1" "g1 \<noteq> []" "r2 \<noteq> []"
    and g2: "g2 = takeWhile notSlash r3" "g2 \<noteq> []"
    unfolding r1_def r2_def r3_def hostPattern_at_def
    by (auto simp: Let_def split: if_splits)
  have "\<not> notSlash (hd r2)"
    unfolding r2_def using g1(3) r2_def hd_dropWhile by blast
  then have r2: "r2 = CHR ''/'' # r3"
    using g1(3) unfolding r3_def notSlash_def by (cases r2) auto
  have "r1 = g1 @ r2"
    unfolding g1(1) r2_def by simp
  moreover have "r3 = g2 @ dropWhile notSlash r3"
    unfolding g2(1) by simp
  moreover have "list_all notSlash g1" "list_all notSlash g2"
    unfolding g1(1) g2(1) by (auto simp: list_all_iff dest: set_takeWhileD)
  ultimately show ?thesis
    using s r2 g1(2) g2(2) by (auto simp: segment_def)
qed

lemma hostPattern_found:
  "hostPattern s = Some m \<Longrightarrow> \<exists>pre x. s = pre @ x \<and> hostPattern_at x = Some m"
proof (induction s)
  case Nil
  then show ?case by simp
next
  case (Cons c s)
  show ?case
  proof (cases "hostPattern_at (c # s)")
    case None
    with Cons.prems have "hostPattern s = Some m" by simp
    then obtain pre x where "s = pre @ x" "hostPattern_at x = Some m"
      using Cons.IH by blast
    then have "c # s = (c # pre) @ x \<and> hostPattern_at x = Some m" by simp
    then show ?thesis by blast
  next
    case (Some m')
    with Cons.prems have "c # s = [] @ (c # s) \<and> hostPattern_at (c # s) = Some m" by simp
    then show ?thesis by blast
  qed
qed

lemma hostPattern_at_loose:
  assumes "segment ow" "segment rp"
  shows "hostPattern_at (''github.com/'' @ ow @ ''/'' @ rp @ rest) \<noteq> None"
  using assms takeWhile_segment_ne [of rp rest]
  by (simp add: hostPattern_at_def segment_def takeWhile_segment dropWhile_segment Let_def)

lemma hostPattern_later:
  "hostPattern x \<noteq> None \<Longrightarrow> hostPattern (pre @ x) \<noteq> None"
  by (induction pre) (auto split: option.splits)

lemma hostPattern_iff: "hostPattern url \<noteq> None \<longleftrightarrow> mentionsRepo url"
proof
  assume "hostPattern url \<noteq> None"
  then obtain g1 g2 g3 where "hostPattern url = Some (g1, g2, g3)"
    by (cases "hostPattern url") auto
  then obtain pre x where x: "url = pre @ x" "hostPattern_at x = Some (g1, g2, g3)"
    using hostPattern_found by blast
  from hostPattern_at_shape [OF x(2)] x(1) show "mentionsRepo url"
    unfolding mentionsRepo_def by blast
next
  assume "mentionsRepo url"
  then obtain pre ow rp rest where u: "url = pre @ ''github.com/'' @ ow @ ''/'' @ rp @ rest"
    and seg: "segment ow" "segment rp"
    unfolding mentionsRepo_def by blast
  have "hostPattern_at (''github.com/'' @ ow @ ''/'' @ rp @ rest) \<noteq> None"
    using seg by (rule hostPattern_at_loose)
  then have "hostPattern (''github.com/'' @ ow @ ''/'' @ rp @ rest) \<noteq> None"
    using hostPattern_here by fastforce
  then show "hostPattern url \<noteq> None"
    unfolding u by (rule hostPattern_later)
qed

lemma barePattern_exact:
  "segment ow \<Longrightarrow> segment rp \<Longrightarrow> barePattern (ow @ ''/'' @ rp) = Some (ow, rp, None)"
  by (simp add: barePattern_def segment_def takeWhile_segment dropWhile_segment)

lemma barePattern_shape:
  assumes "barePattern s = Some (g1, g2, g3)"
  shows "s = g1 @ ''/'' @ g2 \<and> segment g1 \<and> segment g2 \<and> g3 = None"
proof -
  define r where "r = dropWhile notSlash s"
  have c: "takeWhile notSlash s \<noteq> [] \<and> r \<noteq> [] \<and> tl r \<noteq> [] \<and> list_all notSlash (tl r)"
  proof (rule ccontr)
    assume "\<not> ?thesis"
    then have "barePattern s = None"
      unfolding barePattern_def r_def Let_def by (rule if_not_P)
    with assms show False by simp
  qed
  then have "barePattern s = Some (takeWhile notSlash s, tl r, None)"
    unfolding barePattern_def r_def Let_def by (rule if_P)
  with assms have g: "g1 = takeWhile notSlash s" "g2 = tl r" "g3 = None"
    by simp_all
  have "\<not> notSlash (hd r)"
    unfolding r_def using c r_def hd_dropWhile by blast
  then have "hd r = CHR ''/''"
    by (simp add: notSlash_def)
  with c have r: "r = CHR ''/'' # g2"
    unfolding g(2) by (cases r) simp_all
  have "s = takeWhile notSlash s @ r"
    unfolding r_def by simp
  then have s: "s = g1 @ ''/'' @ g2"
    unfolding g(1) r by simp
  have "list_all notSlash g1"
    unfolding g(1) by (auto simp: list_all_iff dest: set_takeWhileD)
  moreover have "g1 \<noteq> []" "g2 \<noteq> []" "list_all notSlash g2"
    unfolding g using c by simp_all
  ultimately have "segment g1" "segment g2"
    by (simp_all add: segment_def)
  with s g(3) show ?thesis
    by blast
qed

lemma barePattern_iff: "barePattern url \<noteq> None \<longleftrightarrow> bareShape url"
proof
  assume "barePattern url \<noteq> None"
  then obtain g1 g2 g3 where "barePattern url = Some (g1, g2, g3)"
    by (cases "barePattern url") auto
  from barePattern_shape [OF this] show "bareShape url"
    unfolding bareShape_def by blast
next
  assume "bareShape url"
  then show "barePattern url \<noteq> None"
    unfolding bareShape_def using barePattern_exact by fastforce
qed

lemma hostPattern_slashes:
  assumes "hostPattern s = Some m"
  shows "2 \<le> slashes s"
proof -
  obtain g1 g2 g3 where m: "m = (g1, g2, g3)" by (cases m)
  obtain pre x where x: "s = pre @ x" "hostPattern_at x = Some (g1, g2, g3)"
    using hostPattern_found assms m by blast
  obtain rest where "x = ''github.com/'' @ g1 @ ''/'' @ g2 @ rest"
    using hostPattern_at_shape [OF x(2)] by blast
  then have "2 \<le> slashes x"
    by (simp add: slashes_def)
  then show ?thesis
    unfolding x(1) by (simp add: slashes_append)
qed

lemma hostPattern_bare:
  assumes "segment ow" "segment rp"
  shows "hostPattern (ow @ ''/'' @ rp) = None"
proof (cases "hostPattern (ow @ ''/'' @ rp)")
  case (Some m)
  then have "2 \<le> slashes (ow @ ''/'' @ rp)" by (rule hostPattern_slashes)
  moreover have "slashes (ow @ ''/'' @ rp) = 1"
    using assms by (simp add: slashes_append slashes_Cons slashes_segment segment_def)
  ultimately show ?thesis by simp
qed simp

text \<open>
  Claim C5. An input made of any prefix, the host \<open>github.com/\<close>, an owner segment, a slash
  and a repo segment, optionally followed by \<open>/tree/\<close> and a branch segment, where the host
  is the first occurrence of \<open>github.com/\<close> in the input, parses to that owner, that repo
  (without a trailing \<open>.git\<close>, see C10) and that branch, or the branch \<open>main\<close> when there is
  no \<open>/tree/\<close> part. A bare \<open>owner/repo\<close> parses to that owner and repo on the branch
  \<open>main\<close>. A segment is a non-empty string without a slash.
\<close>

theorem parseRepoUrl_accepts:
  "(segment ow \<and> segment rp \<and> (tr = [] \<and> br = ''main'' \<or> segment br \<and> tr = ''/tree/'' @ br)
      \<and> noHostBefore pre (''github.com/'' @ ow @ ''/'' @ rp @ tr)
     \<longrightarrow> parseRepoUrl (pre @ ''github.com/'' @ ow @ ''/'' @ rp @ tr)
         = Some \<lparr>owner = ow, repo = stripGit rp, branch = br\<rparr>)
   \<and> (segment ow \<and> segment rp
     \<longrightarrow> parseRepoUrl (ow @ ''/'' @ rp) = Some \<lparr>owner = ow, repo = stripGit rp, branch = ''main''\<rparr>)"
proof (intro conjI impI)
  assume a: "segment ow \<and> segment rp \<and> (tr = [] \<and> br = ''main'' \<or> segment br \<and> tr = ''/tree/'' @ br)
      \<and> noHostBefore pre (''github.com/'' @ ow @ ''/'' @ rp @ tr)"
  define x where "x = ''github.com/'' @ ow @ ''/'' @ rp @ tr"
  define g3 where "g3 = (if tr = [] then None else Some br)"
  have skip: "hostPattern (pre @ x) = hostPattern x"
    using a unfolding x_def by (intro hostPattern_skip) blast
  have "hostPattern_at x = Some (ow, rp, g3)"
  proof (cases "tr = []")
    case True
    then show ?thesis
      unfolding x_def g3_def using a hostPattern_at_exact(1) [of ow rp] by simp
  next
    case False
    with a have "segment br" "tr = ''/tree/'' @ br" by auto
    with False show ?thesis
      unfolding x_def g3_def using a hostPattern_at_exact(2) [of ow rp br] by simp
  qed
  then have "hostPattern x = Some (ow, rp, g3)"
    by (rule hostPattern_here)
  with skip have "matchRepoUrl (pre @ x) = Some (ow, rp, g3)"
    by (simp add: matchRepoUrl_def)
  moreover have "orMain g3 = br"
    using a unfolding g3_def by (auto simp: orMain_def segment_def)
  ultimately have "parseRepoUrl (pre @ x) = Some \<lparr>owner = ow, repo = stripGit rp, branch = br\<rparr>"
    by (simp add: parseRepoUrl_def)
  then show "parseRepoUrl (pre @ ''github.com/'' @ ow @ ''/'' @ rp @ tr)
         = Some \<lparr>owner = ow, repo = stripGit rp, branch = br\<rparr>"
    unfolding x_def .
next
  assume "segment ow \<and> segment rp"
  then have "hostPattern (ow @ ''/'' @ rp) = None" "barePattern (ow @ ''/'' @ rp) = Some (ow, rp, None)"
    using hostPattern_bare [of ow rp] barePattern_exact [of ow rp] by blast+
  then have "matchRepoUrl (ow @ ''/'' @ rp) = Some (ow, rp, None)"
    by (simp add: matchRepoUrl_def)
  then show "parseRepoUrl (ow @ ''/'' @ rp) = Some \<lparr>owner = ow, repo = stripGit rp, branch = ''main''\<rparr>"
    by (simp add: parseRepoUrl_def orMain_def)
qed

lemma js_split_ne [simp]: "js_split c s \<noteq> []"
  by (induction s) (auto split: list.splits)

lemma js_split_append:
  "js_split c (a @ c # b) = js_split c a @ js_split c b"
  by (induction a) (auto split: list.splits)

lemma js_split_segment: "c \<notin> set s \<Longrightarrow> js_split c s = [s]"
  by (induction s) auto

lemma segment_split: "segment s \<Longrightarrow> js_split (CHR ''/'') s = [s]"
  by (rule js_split_segment) (auto simp: segment_def list_all_iff notSlash_def)

lemma hostUrlShape_suffix:
  assumes "hostUrlShape url"
  shows "list_ex strictHost_at (suffixes url)"
proof -
  from assms obtain pre ow rp tr where u: "url = pre @ ''github.com/'' @ ow @ ''/'' @ rp @ tr"
    and seg: "segment ow" "segment rp"
    and tr: "tr = [] \<or> (\<exists>br. segment br \<and> tr = ''/tree/'' @ br)"
    unfolding hostUrlShape_def by blast
  define x where "x = ''github.com/'' @ ow @ ''/'' @ rp @ tr"
  have "suffix x url" unfolding u x_def by (simp add: suffix_def)
  then have mem: "x \<in> set (suffixes url)" by simp
  have d: "drop 11 x = ow @ CHR ''/'' # rp @ tr" unfolding x_def by simp
  have "js_split (CHR ''/'') (drop 11 x) = [ow, rp]
      \<or> (\<exists>br. js_split (CHR ''/'') (drop 11 x) = [ow, rp, ''tree'', br])"
  proof (rule disjE [OF tr])
    assume "tr = []"
    then show ?thesis
      unfolding d using seg by (simp add: js_split_append segment_split)
  next
    assume "\<exists>br. segment br \<and> tr = ''/tree/'' @ br"
    then obtain br where br: "segment br" "tr = ''/tree/'' @ br" by blast
    have "js_split (CHR ''/'') (ow @ CHR ''/'' # rp @ CHR ''/'' # ''tree'' @ CHR ''/'' # br)
        = [ow, rp, ''tree'', br]"
      unfolding js_split_append using seg br(1)
      by (simp add: segment_split js_split_segment)
    then show ?thesis unfolding d br(2) by simp
  qed
  then have "strictHost_at x"
    unfolding strictHost_at_def x_def by (auto simp: Let_def)
  with mem show ?thesis
    unfolding list_ex_iff by blast
qed

text \<open>
  Claim C6 as stated fails: the input \<open>see https://github.com/acme/widgets/issues now\<close> is
  not a URL that ends in \<open>github.com/owner/repo\<close> or in \<open>github.com/owner/repo/tree/branch\<close>,
  and it is not a bare \<open>owner/repo\<close>; it still parses to a repository reference.
\<close>

theorem parseRepoUrl_other_shape_counterexample:
  "\<not> hostUrlShape ''see https://github.com/acme/widgets/issues now''
   \<and> \<not> bareShape ''see https://github.com/acme/widgets/issues now''
   \<and> parseRepoUrl ''see https://github.com/acme/widgets/issues now''
       = Some \<lparr>owner = ''acme'', repo = ''widgets'', branch = ''main''\<rparr>"
proof (intro conjI)
  have "\<not> list_ex strictHost_at (suffixes ''see https://github.com/acme/widgets/issues now'')"
    by (simp add: strictHost_at_def)
  then show "\<not> hostUrlShape ''see https://github.com/acme/widgets/issues now''"
    using hostUrlShape_suffix by blast
  have "barePattern ''see https://github.com/acme/widgets/issues now'' = None"
    by (simp add: barePattern_def notSlash_def)
  then show "\<not> bareShape ''see https://github.com/acme/widgets/issues now''"
    using barePattern_iff by blast
  show "parseRepoUrl ''see https://github.com/acme/widgets/issues now''
       = Some \<lparr>owner = ''acme'', repo = ''widgets'', branch = ''main''\<rparr>"
    by (simp add: parseRepoUrl_def matchRepoUrl_def hostPattern_at_def notSlash_def
        stripGit_def endsWith_def orMain_def suffix_to_prefix)
qed

text \<open>
  Claim C6, amended. \<open>parseRepoUrl\<close> returns no match exactly when the input neither
  contains, at any position, \<open>github.com/\<close> followed by an owner segment, a slash and a
  repo segment, nor is a bare \<open>owner/repo\<close>. Whatever stands before the host or after the
  repo segment does not matter.
\<close>

theorem parseRepoUrl_null_iff:
  "parseRepoUrl url = None \<longleftrightarrow> \<not> mentionsRepo url \<and> \<not> bareShape url"
  using hostPattern_iff [of url] barePattern_iff [of url]
  by (auto simp: parseRepoUrl_def matchRepoUrl_def split: option.splits)

text \<open>
  Claim C6, amended, at a URL of another host.
\<close>

theorem parseRepoUrl_null_iff_witness:
  "parseRepoUrl ''https://gitlab.com/acme/widgets'' = None
   \<and> \<not> mentionsRepo ''https://gitlab.com/acme/widgets''
   \<and> \<not> bareShape ''https://gitlab.com/acme/widgets''"
proof -
  have "parseRepoUrl ''https://gitlab.com/acme/widgets'' = None"
    by (simp add: parseRepoUrl_def matchRepoUrl_def hostPattern_at_def barePattern_def notSlash_def)
  then show ?thesis
    using parseRepoUrl_null_iff [of "''https://gitlab.com/acme/widgets''"] by blast
qed

lemma stripGit_suffix: "stripGit (base @ ''.git'') = base"
  by (simp add: stripGit_def endsWith_def suffix_def)

lemma stripGit_other: "\<not> suffix ''.git'' rp \<Longrightarrow> stripGit rp = rp"
  by (simp add: stripGit_def endsWith_def)

text \<open>
  Claim C10. When the repo segment that the pattern matched ends in \<open>.git\<close>, the returned
  repo is the segment without that suffix: one suffix is removed, at the end. A segment
  that does not end in \<open>.git\<close> is returned as it is.
\<close>

theorem parseRepoUrl_strips_git:
  "(matchRepoUrl url = Some (ow, base @ ''.git'', g3)
      \<longrightarrow> parseRepoUrl url = Some \<lparr>owner = ow, repo = base, branch = orMain g3\<rparr>)
   \<and> (matchRepoUrl url = Some (ow, rp, g3) \<and> \<not> suffix ''.git'' rp
      \<longrightarrow> parseRepoUrl url = Some \<lparr>owner = ow, repo = rp, branch = orMain g3\<rparr>)"
  by (simp add: parseRepoUrl_def stripGit_suffix stripGit_other)

text \<open>
  Claim C10, at \<open>acme/widgets.git\<close>, at a repo segment that ends in \<open>.git.git\<close> (one
  suffix is removed) and at a repo segment \<open>git\<close> without the dot (nothing is removed).
\<close>

theorem parseRepoUrl_strips_git_witness:
  "matchRepoUrl ''acme/widgets.git'' = Some (''acme'', ''widgets'' @ ''.git'', None)
   \<and> parseRepoUrl ''acme/widgets.git'' = Some \<lparr>owner = ''acme'', repo = ''widgets'', branch = ''main''\<rparr>
   \<and> matchRepoUrl ''https://github.com/acme/widgets.git.git/tree/dev''
       = Some (''acme'', ''widgets.git'' @ ''.git'', Some ''dev'')
   \<and> parseRepoUrl ''https://github.com/acme/widgets.git.git/tree/dev''
       = Some \<lparr>owner = ''acme'', repo = ''widgets.git'', branch = ''dev''\<rparr>
   \<and> matchRepoUrl ''acme/git'' = Some (''acme'', ''git'', None) \<and> \<not> suffix ''.git'' ''git''
   \<and> parseRepoUrl ''acme/git'' = Some \<lparr>owner = ''acme'', repo = ''git'', branch = ''main''\<rparr>"
proof -
  have m1: "matchRepoUrl ''acme/widgets.git'' = Some (''acme'', ''widgets'' @ ''.git'', None)"
    by (simp add: matchRepoUrl_def hostPattern_at_def barePattern_def notSlash_def)
  have m2: "matchRepoUrl ''https://github.com/acme/widgets.git.git/tree/dev''
       = Some (''acme'', ''widgets.git'' @ ''.git'', Some ''dev'')"
    by (simp add: matchRepoUrl_def hostPattern_at_def notSlash_def)
  have m3: "matchRepoUrl ''acme/git'' = Some (''acme'', ''git'', None) \<and> \<not> suffix ''.git'' ''git''"
    by (simp add: matchRepoUrl_def hostPattern_at_def barePattern_def notSlash_def suffix_to_prefix)
  show ?thesis
    using m1 m2 m3
      parseRepoUrl_strips_git [of "''acme/widgets.git''" "''acme''" "''widgets''" None]
      parseRepoUrl_strips_git [of "''https://github.com/acme/widgets.git.git/tree/dev''" "''acme''" "''widgets.git''" "Some ''dev''"]
      parseRepoUrl_strips_git [of "''acme/git''" "''acme''" _ None "''git''"]
    by (simp add: orMain_def)
qed

text \<open>
  Claim C5, at the two inputs of the specification and at a host URL without a branch.
\<close>

theorem parseRepoUrl_accepts_witness:
  "parseRepoUrl ''https://github.com/acme/widgets/tree/dev''
     = Some \<lparr>owner = ''acme'', repo = ''widgets'', branch = ''dev''\<rparr>
   \<and> parseRepoUrl ''https://github.com/acme/widgets''
     = Some \<lparr>owner = ''acme'', repo = ''widgets'', branch = ''main''\<rparr>
   \<and> parseRepoUrl ''acme/widgets'' = Some \<lparr>owner = ''acme'', repo = ''widgets'', branch = ''main''\<rparr>"
proof -
  have seg: "segment ''acme''" "segment ''widgets''" "segment ''dev''"
    by (simp_all add: segment_def notSlash_def)
  have first: "noHostBefore ''https://'' (''github.com/'' @ ''acme'' @ ''/'' @ ''widgets'' @ t)" for t
    by simp
  have sg: "stripGit ''widgets'' = ''widgets''"
    by (simp add: stripGit_def endsWith_def suffix_to_prefix)
  from parseRepoUrl_accepts [of "''acme''" "''widgets''" "''/tree/'' @ ''dev''" "''dev''" "''https://''"]
    parseRepoUrl_accepts [of "''acme''" "''widgets''" "[]" "''main''" "''https://''"]
    seg first [of "''/tree/'' @ ''dev''"] first [of "[]"] sg
  show ?thesis by simp
qed

subsection \<open>The inclusion filter\<close>

lemma includes_str_sublist: "includes_str s sub \<longleftrightarrow> sublist sub s"
  by (induction s) (auto simp: sublist_Cons_right)

lemma match_here_lits: "match_here (map Lit w) False s \<longleftrightarrow> prefix w s"
  by (induction w arbitrary: s) (auto split: list.splits)

lemma match_here_lits_end: "match_here (map Lit w) True s \<longleftrightarrow> s = w"
  by (induction w arbitrary: s) (auto split: list.splits)

lemma match_here_lits_opt: "match_here (map Lit w @ [Opt c]) False s \<longleftrightarrow> prefix w s"
  by (induction w arbitrary: s) (auto split: list.splits)

lemma test_from_lits: "test_from (lits w) s \<longleftrightarrow> sublist w s"
  by (induction s) (auto simp: lits_def match_here_lits sublist_Cons_right)

lemma test_from_lits_opt:
  "test_from \<lparr>atoms = map Lit w @ [Opt c], anchored = False\<rparr> s \<longleftrightarrow> sublist w s"
  by (induction s) (auto simp: match_here_lits_opt sublist_Cons_right)

lemma test_from_lits_end: "test_from (lits_end w) s \<longleftrightarrow> suffix w s"
  by (induction s) (auto simp: lits_end_def match_here_lits_end suffix_Cons)

lemma shouldIncludeFile_denied: "shouldIncludeFile p \<longleftrightarrow> \<not> denied p"
  unfolding shouldIncludeFile_def denied_def excludePatterns_def denySubstrings_def
    denySuffixes_def list_ex_Cons_iff list_ex_Nil_iff test_from_lits test_from_lits_opt test_from_lits_end
  by auto

text \<open>
  Claim C9, at the base names of the allow-list. \<open>README\<close>, \<open>LICENSE\<close>, \<open>CHANGELOG\<close> and
  \<open>Dockerfile\<close> are entries of \<open>textExtensions\<close> and no exclude pattern matches them, but
  \<open>isTextFile\<close> compares the lower-cased name with the entries as they are written, so it
  rejects each of these names and the filter of \<open>fetchRepository\<close> drops the file. The name
  \<open>x.mp4\<close>, whose extension is not in the list, is kept: it contains the entry \<open>.m\<close>.
\<close>

theorem textFiles_drops_basenames:
  "''README'' \<in> set textExtensions \<and> \<not> isTextFile ''README'' \<and> shouldIncludeFile ''README''
   \<and> ''LICENSE'' \<in> set textExtensions \<and> \<not> isTextFile ''LICENSE'' \<and> shouldIncludeFile ''LICENSE''
   \<and> ''CHANGELOG'' \<in> set textExtensions \<and> \<not> isTextFile ''CHANGELOG''
   \<and> shouldIncludeFile ''CHANGELOG''
   \<and> ''Dockerfile'' \<in> set textExtensions \<and> \<not> isTextFile ''Dockerfile''
   \<and> shouldIncludeFile ''Dockerfile''
   \<and> ''.mp4'' \<notin> set textExtensions \<and> isTextFile ''x.mp4''
   \<and> textFiles [entry ''README'' ''README'' File, entry ''README.md'' ''README.md'' File,
                  entry ''x.mp4'' ''x.mp4'' File]
       = [entry ''README.md'' ''README.md'' File, entry ''x.mp4'' ''x.mp4'' File]"
proof -
  have listed: "''README'' \<in> set textExtensions" "''LICENSE'' \<in> set textExtensions"
    "''CHANGELOG'' \<in> set textExtensions" "''Dockerfile'' \<in> set textExtensions"
    "''.mp4'' \<notin> set textExtensions"
    by (simp_all add: textExtensions_def)
  have names: "\<not> isTextFile ''README''" "\<not> isTextFile ''LICENSE''" "\<not> isTextFile ''CHANGELOG''"
    "\<not> isTextFile ''Dockerfile''" "isTextFile ''x.mp4''" "isTextFile ''README.md''"
    by (simp_all add: isTextFile_def textExtensions_def toLowerCase_def toLowerCase_unit_def
        upperUnits_def lowerUnits_def endsWith_def startsWith_def suffix_to_prefix)
  have paths: "shouldIncludeFile ''README''" "shouldIncludeFile ''LICENSE''"
    "shouldIncludeFile ''CHANGELOG''" "shouldIncludeFile ''Dockerfile''"
    "shouldIncludeFile ''x.mp4''" "shouldIncludeFile ''README.md''"
    by (simp_all add: shouldIncludeFile_def excludePatterns_def lits_def lits_end_def)
  have "textFiles [entry ''README'' ''README'' File, entry ''README.md'' ''README.md'' File,
                  entry ''x.mp4'' ''x.mp4'' File]
       = [entry ''README.md'' ''README.md'' File, entry ''x.mp4'' ''x.mp4'' File]"
    by (simp add: textFiles_def entry_def names paths)
  with listed names paths show ?thesis
    by simp
qed

lemma toLowerCase_eval:
  "toLowerCase ''App.TS'' = ''app.ts''" "toLowerCase ''x.js'' = ''x.js''"
  "toLowerCase ''logo.png'' = ''logo.png''" "toLowerCase ''conf'' = ''conf''"
  by (simp_all add: toLowerCase_def toLowerCase_unit_def upperUnits_def lowerUnits_def)

lemma getFileExtension_eval:
  "getFileExtension ''x.py'' = ''python''" "getFileExtension ''conf'' = ''conf''"
  "getFileExtension ''a.PY'' = ''python''" "getFileExtension ''notes.'' = []"
  "getFileExtension ''data.toml'' = ''toml''"
  by (simp_all add: getFileExtension_def toLowerCase_def toLowerCase_unit_def upperUnits_def lowerUnits_def
      extMap_def inherited_def)

lemma filter_eval:
  "isTextFile ''conf''" "shouldIncludeFile ''conf''" "\<not> isTextFile ''README''"
  "\<not> shouldIncludeFile ''src/login.ts''"
  by (simp_all add: isTextFile_def shouldIncludeFile_def excludePatterns_def lits_def lits_end_def
      textExtensions_def toLowerCase_def toLowerCase_unit_def upperUnits_def lowerUnits_def endsWith_def
      startsWith_def suffix_to_prefix)

subsection \<open>generateOutput\<close>

lemma requests_append [simp]: "requests (a @ b) = requests a @ requests b"
  by (simp add: requests_def)

lemma requests_simps [simp]:
  "requests [] = []" "requests (Request p # evs) = p # requests evs"
  "requests (Progress x # evs) = requests evs" "requests (Wait n # evs) = requests evs"
  by (simp_all add: requests_def)

lemma forOf_output:
  "fst (forOf e r n L (out, k, s)) = out @ concat (map (fileSection e r) L)"
  by (induction L arbitrary: out k s)
     (auto simp: Let_def fileSection_def split: sum.splits)

lemma forOf_processed:
  "fst (snd (forOf e r n L (out, k, s))) = k + length L"
  by (induction L arbitrary: out k s) (auto simp: Let_def split: sum.splits)

lemma forOf_state:
  "requests (effects (snd (snd (forOf e r n L (out, k, s))))) = requests (effects s) @ map path L
   \<and> toasts (snd (snd (forOf e r n L (out, k, s)))) = toasts s
   \<and> result (snd (snd (forOf e r n L (out, k, s)))) = result s"
  by (induction L arbitrary: out k s)
     (auto simp: Let_def setProgress_def split: sum.splits)

lemma fileSection_failure:
  "fetchFileContent e (owner r) (repo r) (path f) (branch r) = Inl err \<Longrightarrow>
   fileSection e r f = ''## File: '' @ path f @ ''\<newline>\<newline>''
      @ ''Error fetching file content: '' @ errorMessage err @ ''\<newline>\<newline>''"
  by (simp add: fileSection_def)

text \<open>
  Claim C2. With a non-empty selection and a repository loaded, the document that
  \<open>generateOutput\<close> stores is the header followed by one section for every selected file,
  in the order of the file list, whether its fetch returned or threw; the section of a file
  whose fetch threw is its path heading and the error message. Every selected file is
  requested, in that order, and the notification reports the number of selected files.
\<close>

theorem generateOutput_isolates_failures:
  "selectedFiles s \<noteq> {} \<and> repoInfo s = Some r \<longrightarrow>
     result (generateOutput e s)
       = header e r (length (selectedFilesList s))
         @ concat (map (fileSection e r) (selectedFilesList s))
     \<and> toasts (generateOutput e s)
       = toasts s @ [\<lparr>title = ''Success'',
                       description = ''Generated text from ''
                         @ toString_nat (length (selectedFilesList s)) @ '' files'',
                       variant = Default\<rparr>]
     \<and> requests (effects (generateOutput e s)) = requests (effects s) @ map path (selectedFilesList s)
     \<and> (\<forall>f \<in> set (selectedFilesList s). \<forall>err.
          fetchFileContent e (owner r) (repo r) (path f) (branch r) = Inl err \<longrightarrow>
          fileSection e r f = ''## File: '' @ path f @ ''\<newline>\<newline>''
             @ ''Error fetching file content: '' @ errorMessage err @ ''\<newline>\<newline>'')"
proof (intro impI)
  assume a: "selectedFiles s \<noteq> {} \<and> repoInfo s = Some r"
  define L where "L = selectedFilesList s"
  define s1 where "s1 = setProgress 0 (s\<lparr>loading := True\<rparr>)"
  define run where "run = forOf e r (length L) L (header e r (length L), 0, s1)"
  obtain out k s' where run: "run = (out, k, s')" by (cases run)
  have s1: "selectedFiles s1 = selectedFiles s" "files s1 = files s" "repoInfo s1 = Some r"
    "toasts s1 = toasts s" "requests (effects s1) = requests (effects s)"
    using a unfolding s1_def setProgress_def by simp_all
  have out: "out = header e r (length L) @ concat (map (fileSection e r) L)"
    using forOf_output [of e r "length L" L "header e r (length L)" 0 s1]
    unfolding run_def [symmetric] run by simp
  have k: "k = length L"
    using forOf_processed [of e r "length L" L "header e r (length L)" 0 s1]
    unfolding run_def [symmetric] run by simp
  have st: "requests (effects s') = requests (effects s) @ map path L" "toasts s' = toasts s"
    using forOf_state [of e r "length L" L "header e r (length L)" 0 s1] s1
    unfolding run_def [symmetric] run by simp_all
  have gen: "generateOutput e s =
      setProgress 0 ((showToast \<lparr>title = ''Success'',
          description = ''Generated text from '' @ toString_nat k @ '' files'',
          variant = Default\<rparr> (s'\<lparr>result := out\<rparr>))\<lparr>loading := False\<rparr>)"
    using a s1 run
    unfolding generateOutput_def s1_def [symmetric] Let_def run_def L_def selectedFilesList_def
    by simp
  show "result (generateOutput e s)
       = header e r (length (selectedFilesList s))
         @ concat (map (fileSection e r) (selectedFilesList s))
     \<and> toasts (generateOutput e s)
       = toasts s @ [\<lparr>title = ''Success'',
                       description = ''Generated text from ''
                         @ toString_nat (length (selectedFilesList s)) @ '' files'',
                       variant = Default\<rparr>]
     \<and> requests (effects (generateOutput e s)) = requests (effects s) @ map path (selectedFilesList s)
     \<and> (\<forall>f \<in> set (selectedFilesList s). \<forall>err.
          fetchFileContent e (owner r) (repo r) (path f) (branch r) = Inl err \<longrightarrow>
          fileSection e r f = ''## File: '' @ path f @ ''\<newline>\<newline>''
             @ ''Error fetching file content: '' @ errorMessage err @ ''\<newline>\<newline>'')"
    unfolding gen L_def [symmetric]
    using out k st fileSection_failure [of e r]
    by (simp add: setProgress_def showToast_def)
qed

text \<open>
  Claim C4. With an empty selection \<open>generateOutput\<close> shows the error notification and
  nothing else: the stored result is unchanged, no request is made, no progress update and
  no change of the loading flag happens.
\<close>

theorem generateOutput_empty_selection:
  "selectedFiles s = {} \<longrightarrow>
     result (generateOutput e s) = result s
     \<and> effects (generateOutput e s) = effects s
     \<and> toasts (generateOutput e s)
         = toasts s @ [\<lparr>title = ''Error'', description = ''Please select at least one file'',
                         variant = Destructive\<rparr>]
     \<and> loading (generateOutput e s) = loading s
     \<and> progress (generateOutput e s) = progress s"
  by (simp add: generateOutput_def showToast_def)

lemma toString_nat_eval: "toString_nat 1 = ''1''" "toString_nat 2 = ''2''"
  by (simp_all add: toString_nat.simps digit_def)

text \<open>
  Claim C2, at two selected files where the fetch of the first fails: the document has
  both sections, the first with the error message, and 2 files are reported.
\<close>

theorem generateOutput_isolates_failures_witness:
  "selectedFiles (session [file_a, file_b] {''src/a.py'', ''b.md''}) \<noteq> {}
   \<and> repoInfo (session [file_a, file_b] {''src/a.py'', ''b.md''}) = Some acme
   \<and> result (generateOutput net (session [file_a, file_b] {''src/a.py'', ''b.md''}))
       = header net acme 2
         @ ''## File: src/a.py\<newline>\<newline>Error fetching file content: Failed to fetch file: 404 Not Found\<newline>\<newline>''
         @ ''## File: b.md\<newline>\<newline>```markdown\<newline>print(1)\<newline>```\<newline>\<newline>''
   \<and> toasts (generateOutput net (session [file_a, file_b] {''src/a.py'', ''b.md''}))
       = [\<lparr>title = ''Success'', description = ''Generated text from 2 files'', variant = Default\<rparr>]
   \<and> requests (effects (generateOutput net (session [file_a, file_b] {''src/a.py'', ''b.md''})))
       = [''src/a.py'', ''b.md'']"
proof -
  have L: "selectedFilesList (session [file_a, file_b] {''src/a.py'', ''b.md''}) = [file_a, file_b]"
    by (simp add: selectedFilesList_def session_def file_a_def file_b_def)
  have h: "selectedFiles (session [file_a, file_b] {''src/a.py'', ''b.md''}) \<noteq> {}
      \<and> repoInfo (session [file_a, file_b] {''src/a.py'', ''b.md''}) = Some acme"
    by (simp add: session_def)
  have ext: "getFileExtension ''b.md'' = ''markdown''"
    by (simp add: getFileExtension_def toLowerCase_def toLowerCase_unit_def upperUnits_def
        lowerUnits_def extMap_def)
  have sa: "fileSection net acme file_a
      = ''## File: src/a.py\<newline>\<newline>Error fetching file content: Failed to fetch file: 404 Not Found\<newline>\<newline>''"
    by (simp add: fileSection_def net_def file_a_def errorMessage_def)
  have sb: "fileSection net acme file_b
      = ''## File: b.md\<newline>\<newline>```markdown\<newline>print(1)\<newline>```\<newline>\<newline>''"
    by (simp add: fileSection_def net_def file_b_def ext)
  have p: "path file_a = ''src/a.py''" "path file_b = ''b.md''"
    by (simp_all add: file_a_def file_b_def)
  have two: "Suc (Suc 0) = 2"
    by simp
  have e0: "requests (effects (session [file_a, file_b] {''src/a.py'', ''b.md''})) = []"
    "toasts (session [file_a, file_b] {''src/a.py'', ''b.md''}) = []"
    by (simp_all add: session_def)
  from generateOutput_isolates_failures
         [of "session [file_a, file_b] {''src/a.py'', ''b.md''}" acme net] h
  show ?thesis
    unfolding L by (simp add: sa sb p e0 toString_nat_eval two)
qed

text \<open>
  Claim C4, at a session that holds an earlier result and two files, none selected.
\<close>

theorem generateOutput_empty_selection_witness:
  "selectedFiles (session [file_a, file_b] {}) = {}
   \<and> result (generateOutput net (session [file_a, file_b] {})) = ''old''
   \<and> effects (generateOutput net (session [file_a, file_b] {})) = []
   \<and> toasts (generateOutput net (session [file_a, file_b] {}))
       = [\<lparr>title = ''Error'', description = ''Please select at least one file'',
            variant = Destructive\<rparr>]"
proof -
  have h: "selectedFiles (session [file_a, file_b] {}) = {}"
    by (simp add: session_def)
  from generateOutput_empty_selection [of "session [file_a, file_b] {}" net] h
  show ?thesis
    by (simp add: session_def)
qed

text \<open>
  The example of claim C3 that holds: the selection \<open>x.py\<close> with the content \<open>print(1)\<close>
  gives the heading \<open>x.py\<close> and a fence tagged \<open>python\<close> around \<open>print(1)\<close>.
\<close>

theorem generateOutput_python_fence:
  "result (generateOutput net (session [file_x] {''x.py''}))
     = header net acme 1 @ ''## File: x.py\<newline>\<newline>```python\<newline>print(1)\<newline>```\<newline>\<newline>''"
proof -
  have ext: "getFileExtension ''x.py'' = ''python''"
    by (simp add: getFileExtension_def toLowerCase_def toLowerCase_unit_def upperUnits_def
        lowerUnits_def extMap_def)
  show ?thesis
    by (simp add: generateOutput_def session_def file_x_def net_def acme_def setProgress_def
        showToast_def Let_def ext)
qed

text \<open>
  Claim C3, the case of a name without an extension: the file \<open>conf\<close> passes the
  inclusion filter, \<open>getFileExtension\<close> returns the whole lower-cased name for it, and its
  fence in the document is tagged \<open>conf\<close> where the claim has an untagged fence.
\<close>

theorem getFileExtension_no_extension:
  "isTextFile ''conf'' \<and> shouldIncludeFile ''conf''
   \<and> getFileExtension ''conf'' = ''conf''
   \<and> result (generateOutput net (session [file_conf] {''conf''}))
       = header net acme 1 @ ''## File: conf\<newline>\<newline>```conf\<newline>print(1)\<newline>```\<newline>\<newline>''"
proof -
  have ext: "getFileExtension ''conf'' = ''conf''"
    by (simp add: getFileExtension_def toLowerCase_def toLowerCase_unit_def upperUnits_def
        lowerUnits_def extMap_def inherited_def)
  have "isTextFile ''conf''" "shouldIncludeFile ''conf''"
    by (simp_all add: isTextFile_def shouldIncludeFile_def excludePatterns_def lits_def lits_end_def
      textExtensions_def toLowerCase_def toLowerCase_unit_def upperUnits_def lowerUnits_def
      endsWith_def startsWith_def suffix_to_prefix)
  moreover have "result (generateOutput net (session [file_conf] {''conf''}))
       = header net acme 1 @ ''## File: conf\<newline>\<newline>```conf\<newline>print(1)\<newline>```\<newline>\<newline>''"
    by (simp add: generateOutput_def session_def file_conf_def net_def acme_def setProgress_def
        showToast_def Let_def ext)
  ultimately show ?thesis
    using ext by simp
qed

text \<open>
  Claim C7, at two selected files where the fetch of the first fails: the effects of the
  run, in order. Progress goes to 50 and to 100, and is reset to 0 when the run ends; the
  wait of 100 ms follows the file that was fetched, and no wait stands between the failed
  fetch and the next request.
\<close>

theorem generateOutput_no_wait_after_failure:
  "effects (generateOutput net (session [file_a, file_b] {''src/a.py'', ''b.md''}))
     = [Progress 0,
        Request ''src/a.py'', Progress 50,
        Request ''b.md'', Progress 100, Wait 100,
        Progress 0]"
  by (simp add: generateOutput_def session_def file_a_def file_b_def net_def acme_def
      setProgress_def showToast_def Let_def)

subsection \<open>buildTree\<close>

lemma js_split_slashfree: "s \<in> set (js_split c p) \<Longrightarrow> c \<notin> set s"
  by (induction p arbitrary: s) (auto split: list.splits if_splits)

lemma js_join_Cons_Cons: "js_join sep ((x # s) # ss) = x # js_join sep (s # ss)"
  by (cases ss) auto

lemma js_join_split: "js_join [c] (js_split c s) = s"
proof (induction s)
  case Nil
  then show ?case by simp
next
  case (Cons x xs)
  obtain s1 ss where sp: "js_split c xs = s1 # ss"
    by (cases "js_split c xs") auto
  show ?case
  proof (cases "x = c")
    case True
    with Cons sp show ?thesis by simp
  next
    case False
    with Cons sp show ?thesis by (simp add: js_join_Cons_Cons)
  qed
qed

lemma js_split_join:
  "xs \<noteq> [] \<Longrightarrow> \<forall>s\<in>set xs. c \<notin> set s \<Longrightarrow> js_split c (js_join [c] xs) = xs"
proof (induction xs)
  case Nil
  then show ?case by simp
next
  case (Cons x xs)
  show ?case
  proof (cases xs)
    case Nil
    with Cons.prems show ?thesis by (simp add: js_split_segment)
  next
    case (Cons y ys)
    with Cons.IH Cons.prems have "js_split c (js_join [c] (y # ys)) = y # ys"
      by simp
    with Cons.prems show ?thesis
      unfolding Cons by (simp add: js_split_append js_split_segment)
  qed
qed

lemma js_join_snoc: "xs \<noteq> [] \<Longrightarrow> js_join sep (xs @ [x]) = js_join sep xs @ sep @ x"
  by (induction sep xs rule: js_join.induct) auto

lemma js_join_ne: "xs \<noteq> [] \<Longrightarrow> hd xs \<noteq> [] \<Longrightarrow> js_join sep xs \<noteq> []"
  by (induction sep xs rule: js_join.induct) auto

lemma segments_ne [simp]: "segments g \<noteq> []"
  by (simp add: segments_def)

lemma prefixPath_full: "prefixPath g (length (segments g)) = path g"
  by (simp add: prefixPath_def segments_def js_join_split)

lemma split_prefixPath:
  assumes "0 < i"
  shows "js_split (CHR ''/'') (prefixPath g i) = take i (segments g)"
proof -
  have "take i (segments g) \<noteq> []"
    using assms by simp
  moreover have "\<forall>s\<in>set (take i (segments g)). CHR ''/'' \<notin> set s"
    using js_split_slashfree [of _ "CHR ''/''" "path g"]
    by (auto simp: segments_def dest: in_set_takeD)
  ultimately show ?thesis
    unfolding prefixPath_def by (rule js_split_join)
qed

lemma path_is_prefixPath:
  assumes "path f = prefixPath g i" "0 < i"
  shows "segments f = take i (segments g)"
proof -
  have "segments f = js_split (CHR ''/'') (prefixPath g i)"
    using assms(1) by (simp add: segments_def)
  then show ?thesis
    using split_prefixPath [OF assms(2)] by simp
qed

lemma prefixPath_step:
  assumes "index < length (segments g)" "hd (segments g) \<noteq> []"
    and "cp = (if index = 0 then [] else prefixPath g index)"
  shows "(if cp \<noteq> [] then cp @ ''/'' @ segments g ! index else segments g ! index)
         = prefixPath g (Suc index)"
proof (cases "index = 0")
  case True
  with assms show ?thesis
    by (cases "segments g") (simp_all add: prefixPath_def)
next
  case False
  have t: "take (Suc index) (segments g) = take index (segments g) @ [segments g ! index]"
    using assms(1) by (rule take_Suc_conv_app_nth)
  have ne: "take index (segments g) \<noteq> []"
    using False by simp
  have "hd (take index (segments g)) = hd (segments g)"
    using False by (cases "segments g") (auto simp: take_Cons')
  with ne assms(2) have "js_join ''/'' (take index (segments g)) \<noteq> []"
    by (intro js_join_ne) simp_all
  with False assms(3) show ?thesis
    unfolding prefixPath_def t by (simp add: js_join_snoc [OF ne])
qed

lemma reach_mono:
  assumes "reach b k"
    and "set (rootNodes b) \<subseteq> set (rootNodes b')"
    and "\<And>p n. nodeMap b p = Some n \<Longrightarrow>
           \<exists>n'. nodeMap b' p = Some n' \<and> set (children n) \<subseteq> set (children n')"
  shows "reach b' k"
  using assms(1)
proof (induction rule: reach.induct)
  case (reach_root k)
  with assms(2) show ?case by (auto intro: reach.reach_root)
next
  case (reach_child p n k)
  from assms(3) [OF reach_child.hyps(2)] obtain n'
    where "nodeMap b' p = Some n'" "set (children n) \<subseteq> set (children n')" by blast
  with reach_child.IH reach_child.hyps(3) show ?case
    by (auto intro: reach.reach_child)
qed

lemma Inv_empty: "Inv {} \<lparr>rootNodes = [], nodeMap = Map.empty\<rparr>"
  by (simp add: Inv_def)

lemma Inv_weaken_present:
  assumes "Inv K b" "nodeMap b (prefixPath g i) \<noteq> None"
  shows "Inv (insert (g, i) K) b"
  using assms unfolding Inv_def by (intro conjI) blast+

lemma visit_step:
  assumes inv: "Inv K b"
    and idx: "index < length (segments g)"
    and wf: "hd (segments g) \<noteq> []"
    and cp: "cp = (if index = 0 then [] else prefixPath g index)"
    and par: "0 < index \<Longrightarrow> (g, index) \<in> K"
  shows "\<exists>b'. visit g (segments g) (cp, b) (index, segments g ! index)
               = (prefixPath g (Suc index), b')
             \<and> Inv (insert (g, Suc index) K) b'"
proof -
  define k1 where "k1 = prefixPath g (Suc index)"
  define part where "part = segments g ! index"
  define node where "node =
    \<lparr>node_name = part, node_path = k1,
     node_type = (if index = length (segments g) - 1 \<and> type g = File then File else Dir),
     children = [],
     node_file = (if index = length (segments g) - 1 \<and> type g = File then Some g else None)\<rparr>"
  have k1: "(if cp \<noteq> [] then cp @ ''/'' @ part else part) = k1"
    unfolding k1_def part_def using idx wf cp by (rule prefixPath_step)
  have last: "(index = length (segments g) - 1) = (Suc index = length (segments g))"
    using idx by auto
  have made: "made g (Suc index) node"
    unfolding made_def node_def last by simp
  have np: "node_path node = k1" and nc: "children node = []"
    unfolding node_def by simp_all
  from inv have A: "\<And>k n. nodeMap b k = Some n \<Longrightarrow>
        node_path n = k \<and> (\<exists>g i. (g, i) \<in> K \<and> k = prefixPath g i \<and> made g i n)"
    and B: "\<And>g i. (g, i) \<in> K \<Longrightarrow> nodeMap b (prefixPath g i) \<noteq> None"
    and C: "\<And>p n c. nodeMap b p = Some n \<Longrightarrow> c \<in> set (children n) \<Longrightarrow>
            (\<exists>g i. (g, i) \<in> K \<and> i < length (segments g) \<and> p = prefixPath g i)"
    and D: "\<And>k n. nodeMap b k = Some n \<Longrightarrow> reach b k"
    unfolding Inv_def by blast+
  show ?thesis
  proof (cases "nodeMap b k1")
    case (Some n0)
    then have "visit g (segments g) (cp, b) (index, part) = (k1, b)"
      unfolding visit.simps Let_def k1 by simp
    moreover have "Inv (insert (g, Suc index) K) b"
      using inv Some unfolding k1_def by (intro Inv_weaken_present) simp_all
    ultimately show ?thesis
      unfolding k1_def part_def by blast
  next
    case None
    show ?thesis
    proof (cases "index = 0")
      case True
      define b' where "b' = \<lparr>rootNodes = rootNodes b @ [k1], nodeMap = (nodeMap b)(k1 \<mapsto> node)\<rparr>"
      have v: "visit g (segments g) (cp, b) (index, part) = (k1, b')"
        unfolding visit.simps Let_def k1 using None True
        by (simp add: b'_def node_def)
      have m: "nodeMap b' = (nodeMap b)(k1 \<mapsto> node)" and r: "rootNodes b' = rootNodes b @ [k1]"
        unfolding b'_def by simp_all
      have mono: "reach b' k" if "reach b k" for k
        using that
      proof (rule reach_mono)
        show "set (rootNodes b) \<subseteq> set (rootNodes b')"
          unfolding r by auto
        show "\<exists>n'. nodeMap b' p = Some n' \<and> set (children n) \<subseteq> set (children n')"
          if "nodeMap b p = Some n" for p n
          using that None unfolding m by (cases "p = k1") auto
      qed
      have "Inv (insert (g, Suc index) K) b'"
        unfolding Inv_def
      proof (intro conjI allI impI)
        fix k n assume kn: "nodeMap b' k = Some n"
        show "node_path n = k"
          using kn A np unfolding m by (cases "k = k1") auto
        show "\<exists>g' i. (g', i) \<in> insert (g, Suc index) K \<and> k = prefixPath g' i \<and> made g' i n"
        proof (cases "k = k1")
          case True
          with kn have "n = node" unfolding m by simp
          with made True show ?thesis unfolding k1_def by blast
        next
          case False
          with kn have "nodeMap b k = Some n" unfolding m by simp
          from A [OF this] show ?thesis by blast
        qed
        show "reach b' k"
        proof (cases "k = k1")
          case True
          then show ?thesis unfolding r by (auto intro: reach.reach_root simp: r)
        next
          case False
          with kn have "nodeMap b k = Some n" unfolding m by simp
          from mono [OF D [OF this]] show ?thesis .
        qed
      next
        fix g' i assume "(g', i) \<in> insert (g, Suc index) K"
        then show "nodeMap b' (prefixPath g' i) \<noteq> None"
          using B unfolding m k1_def by auto
      next
        fix p n c assume pn: "nodeMap b' p = Some n" and c: "c \<in> set (children n)"
        have "p \<noteq> k1"
          using pn c nc unfolding m by auto
        with pn have "nodeMap b p = Some n" unfolding m by simp
        from C [OF this c]
        show "\<exists>g' i. (g', i) \<in> insert (g, Suc index) K \<and> i < length (segments g') \<and> p = prefixPath g' i"
          by blast
      qed
      with v show ?thesis
        unfolding k1_def part_def by blast
    next
      case False
      define pp where "pp = js_join ''/'' (take index (segments g))"
      have pp: "pp = prefixPath g index"
        unfolding pp_def prefixPath_def ..
      from False par have inK: "(g, index) \<in> K" by simp
      from B [OF inK] obtain pn where pn: "nodeMap b pp = Some pn"
        unfolding pp by auto
      with None have ne: "pp \<noteq> k1" by auto
      define pn' where "pn' = pn\<lparr>children := children pn @ [k1]\<rparr>"
      define b' where "b' = \<lparr>rootNodes = rootNodes b, nodeMap = (nodeMap b)(k1 \<mapsto> node, pp \<mapsto> pn')\<rparr>"
      have v: "visit g (segments g) (cp, b) (index, part) = (k1, b')"
        unfolding visit.simps Let_def k1 pp_def [symmetric] using None False pn ne
        by (simp add: b'_def node_def pn'_def)
      have m: "nodeMap b' = (nodeMap b)(k1 \<mapsto> node, pp \<mapsto> pn')" and r: "rootNodes b' = rootNodes b"
        unfolding b'_def by simp_all
      have pn'_same: "node_path pn' = node_path pn" "made g' i pn' = made g' i pn" for g' i
        unfolding pn'_def made_def by simp_all
      have mono: "reach b' k" if "reach b k" for k
        using that
      proof (rule reach_mono)
        show "set (rootNodes b) \<subseteq> set (rootNodes b')"
          unfolding r by auto
        show "\<exists>n'. nodeMap b' p = Some n' \<and> set (children n) \<subseteq> set (children n')"
          if "nodeMap b p = Some n" for p n
          using that None pn unfolding m pn'_def by (cases "p = pp"; cases "p = k1") auto
      qed
      have rp: "reach b' pp"
        using mono [OF D [OF pn]] .
      have rk: "reach b' k1"
        using rp
      proof (rule reach.reach_child)
        show "nodeMap b' pp = Some pn'" unfolding m by simp
        show "k1 \<in> set (children pn')" unfolding pn'_def by simp
      qed
      have "Inv (insert (g, Suc index) K) b'"
        unfolding Inv_def
      proof (intro conjI allI impI)
        fix k n assume kn: "nodeMap b' k = Some n"
        consider (new) "k = k1" "n = node" | (parent) "k = pp" "n = pn'"
          | (old) "k \<noteq> k1" "k \<noteq> pp" "nodeMap b k = Some n"
          using kn ne unfolding m by (cases "k = pp"; cases "k = k1") auto
        then show "node_path n = k"
        proof cases
          case new then show ?thesis using np by simp
        next
          case parent then show ?thesis using A [OF pn] pn'_same by simp
        next
          case old then show ?thesis using A by blast
        qed
        consider (new) "k = k1" "n = node" | (parent) "k = pp" "n = pn'"
          | (old) "k \<noteq> k1" "k \<noteq> pp" "nodeMap b k = Some n"
          using kn ne unfolding m by (cases "k = pp"; cases "k = k1") auto
        then show "\<exists>g' i. (g', i) \<in> insert (g, Suc index) K \<and> k = prefixPath g' i \<and> made g' i n"
        proof cases
          case new then show ?thesis using made unfolding k1_def by blast
        next
          case parent
          from A [OF pn] obtain g' i where "(g', i) \<in> K" "pp = prefixPath g' i" "made g' i pn"
            by blast
          with parent show ?thesis using pn'_same by blast
        next
          case old
          from A [OF old(3)] show ?thesis by blast
        qed
        consider (new) "k = k1" "n = node" | (parent) "k = pp" "n = pn'"
          | (old) "k \<noteq> k1" "k \<noteq> pp" "nodeMap b k = Some n"
          using kn ne unfolding m by (cases "k = pp"; cases "k = k1") auto
        then show "reach b' k"
        proof cases
          case new then show ?thesis using rk by simp
        next
          case parent then show ?thesis using rp by simp
        next
          case old show ?thesis by (rule mono [OF D [OF old(3)]])
        qed
      next
        fix g' i assume "(g', i) \<in> insert (g, Suc index) K"
        then show "nodeMap b' (prefixPath g' i) \<noteq> None"
          using B unfolding m k1_def by auto
      next
        fix p n c assume pn2: "nodeMap b' p = Some n" and c: "c \<in> set (children n)"
        consider (new) "p = k1" "n = node" | (parent) "p = pp" "n = pn'"
          | (old) "p \<noteq> k1" "p \<noteq> pp" "nodeMap b p = Some n"
          using pn2 ne unfolding m by (cases "p = pp"; cases "p = k1") auto
        then show "\<exists>g' i. (g', i) \<in> insert (g, Suc index) K \<and> i < length (segments g') \<and> p = prefixPath g' i"
        proof cases
          case new then show ?thesis using c nc by simp
        next
          case parent
          with inK idx pp show ?thesis by blast
        next
          case old
          from C [OF old(3) c] show ?thesis by blast
        qed
      qed
      with v show ?thesis
        unfolding k1_def part_def by blast
    qed
  qed
qed

lemma visits_from:
  assumes wf: "hd (segments g) \<noteq> []"
  shows "i \<le> length (segments g) \<Longrightarrow> Inv K b \<Longrightarrow>
     cp = (if i = 0 then [] else prefixPath g i) \<Longrightarrow> (0 < i \<Longrightarrow> (g, i) \<in> K) \<Longrightarrow>
     Inv (K \<union> {(g, j) | j. i < j \<and> j \<le> length (segments g)})
       (snd (foldl (visit g (segments g)) (cp, b) (enumerate i (drop i (segments g)))))"
proof (induction "length (segments g) - i" arbitrary: i K b cp)
  case 0
  then have i: "i = length (segments g)" by simp
  have e: "{(g, j) | j. i < j \<and> j \<le> length (segments g)} = {}"
    using i by auto
  show ?case
    unfolding e using 0(3) i by simp
next
  case (Suc n)
  then have idx: "i < length (segments g)" by simp
  have d: "drop i (segments g) = segments g ! i # drop (Suc i) (segments g)"
    using idx by (simp add: Cons_nth_drop_Suc)
  obtain b' where v: "visit g (segments g) (cp, b) (i, segments g ! i) = (prefixPath g (Suc i), b')"
    and inv': "Inv (insert (g, Suc i) K) b'"
    using visit_step [OF Suc.prems(2) idx wf Suc.prems(3) Suc.prems(4)] by blast
  have "Inv (insert (g, Suc i) K \<union> {(g, j) | j. Suc i < j \<and> j \<le> length (segments g)})
       (snd (foldl (visit g (segments g)) (prefixPath g (Suc i), b')
          (enumerate (Suc i) (drop (Suc i) (segments g)))))"
  proof (rule Suc.hyps(1))
    show "n = length (segments g) - Suc i" using Suc.hyps(2) by simp
    show "Suc i \<le> length (segments g)" using idx by simp
    show "Inv (insert (g, Suc i) K) b'" by (rule inv')
    show "prefixPath g (Suc i) = (if Suc i = 0 then [] else prefixPath g (Suc i))" by simp
    show "(g, Suc i) \<in> insert (g, Suc i) K" by simp
  qed
  moreover have "insert (g, Suc i) K \<union> {(g, j) | j. Suc i < j \<and> j \<le> length (segments g)}
      = K \<union> {(g, j) | j. i < j \<and> j \<le> length (segments g)}"
    using idx by (auto simp: Suc_le_eq less_Suc_eq)
  ultimately show ?case
    unfolding d by (simp add: v)
qed

lemma addFile_Inv:
  assumes "Inv K b" "hd (segments g) \<noteq> []"
  shows "Inv (K \<union> visited [g]) (addFile b g)"
proof -
  have "Inv (K \<union> {(g, j) | j. 0 < j \<and> j \<le> length (segments g)})
       (snd (foldl (visit g (segments g)) ([], b) (enumerate 0 (drop 0 (segments g)))))"
    using assms by (intro visits_from) simp_all
  moreover have "{(g, j) | j. 0 < j \<and> j \<le> length (segments g)} = visited [g]"
    by (auto simp: visited_def)
  ultimately show ?thesis
    by (simp add: addFile_def segments_def Let_def)
qed

lemma visited_Cons: "visited (g # P) = visited [g] \<union> visited P"
  by (auto simp: visited_def)

lemma foldl_addFile_Inv:
  "Inv K b \<Longrightarrow> \<forall>g\<in>set P. hd (segments g) \<noteq> [] \<Longrightarrow> Inv (K \<union> visited P) (foldl addFile b P)"
proof (induction P arbitrary: K b)
  case Nil
  then show ?case by (simp add: visited_def)
next
  case (Cons g P)
  have "Inv (K \<union> visited [g]) (addFile b g)"
    using Cons.prems by (intro addFile_Inv) simp_all
  then have "Inv ((K \<union> visited [g]) \<union> visited P) (foldl addFile (addFile b g) P)"
    using Cons.prems by (intro Cons.IH) simp_all
  then show ?case
    by (simp add: visited_Cons [of g P] Un_assoc)
qed

lemma visited_set: "set P = set Q \<Longrightarrow> visited P = visited Q"
  by (simp add: visited_def)

lemma buildTree_Inv:
  assumes "\<forall>g\<in>set E. hd (segments g) \<noteq> []"
  shows "Inv (visited E) (buildTree collate E)"
proof -
  have "Inv ({} \<union> visited (sort_key (\<lambda>f. collate (path f)) E))
      (foldl addFile \<lparr>rootNodes = [], nodeMap = Map.empty\<rparr> (sort_key (\<lambda>f. collate (path f)) E))"
    using assms by (intro foldl_addFile_Inv Inv_empty) simp
  moreover have "visited (sort_key (\<lambda>f. collate (path f)) E) = visited E"
    by (rule visited_set) simp
  ultimately show ?thesis
    by (simp add: buildTree_def)
qed

lemma relativePath_segments: "relativePath (path g) \<longleftrightarrow> hd (segments g) \<noteq> []"
  by (cases "path g") (auto simp: relativePath_def segments_def split: list.splits)

lemma inTree_key:
  assumes "Inv K t" "inTree t n"
  shows "nodeMap t (node_path n) = Some n \<and> reach t (node_path n)"
  using assms unfolding Inv_def inTree_def by blast

lemma Inv_inTree:
  assumes "Inv K t" "nodeMap t k = Some n"
  shows "inTree t n \<and> node_path n = k"
  using assms unfolding Inv_def inTree_def by blast

lemma take_strict_prefix: "i < length xs \<Longrightarrow> strict_prefix (take i xs) xs"
proof -
  assume "i < length xs"
  then have "take i xs \<noteq> xs"
    by (metis length_take min.absorb4 nat_neq_iff)
  then show ?thesis
    by (simp add: strict_prefix_def take_is_prefix)
qed

text \<open>
  Claim C1, amended. Let no path be empty or start with a slash, let no two entries have
  the same path, and let no path of a file entry be a proper prefix (by segments) of the
  path of another entry. Then every file entry has a node of the tree with its path, of
  type file, carrying the entry and without children; every file node of the tree carries
  a file entry of the list and has its path; two nodes of the tree with the same path are
  the same node; and every proper prefix path of an entry has a directory node.
\<close>

theorem buildTree_files_and_directories:
  assumes rel: "\<forall>f\<in>set E. relativePath (path f)"
    and dist: "distinct (map path E)"
    and nopre: "\<forall>f\<in>set E. \<forall>g\<in>set E. type f = File \<longrightarrow> \<not> strict_prefix (segments f) (segments g)"
  shows "(\<forall>f\<in>set E. type f = File \<longrightarrow>
            (\<exists>n. inTree (buildTree collate E) n \<and> node_path n = path f \<and> node_type n = File
                 \<and> node_file n = Some f \<and> children n = []))
       \<and> (\<forall>n. inTree (buildTree collate E) n \<and> node_type n = File \<longrightarrow>
            (\<exists>f\<in>set E. type f = File \<and> node_file n = Some f \<and> node_path n = path f))
       \<and> (\<forall>n n'. inTree (buildTree collate E) n \<and> inTree (buildTree collate E) n'
            \<and> node_path n = node_path n' \<longrightarrow> n = n')
       \<and> (\<forall>f\<in>set E. \<forall>i. 0 < i \<and> i < length (segments f) \<longrightarrow>
            (\<exists>n. inTree (buildTree collate E) n \<and> node_path n = prefixPath f i
                 \<and> node_type n = Dir))"
proof -
  define t where "t = buildTree collate E"
  have inv: "Inv (visited E) t"
    unfolding t_def using rel by (intro buildTree_Inv) (simp add: relativePath_segments)
  from inv have A: "\<And>k n. nodeMap t k = Some n \<Longrightarrow>
        node_path n = k \<and> (\<exists>g i. (g, i) \<in> visited E \<and> k = prefixPath g i \<and> made g i n)"
    and B: "\<And>g i. (g, i) \<in> visited E \<Longrightarrow> nodeMap t (prefixPath g i) \<noteq> None"
    and C: "\<And>p n c. nodeMap t p = Some n \<Longrightarrow> c \<in> set (children n) \<Longrightarrow>
            (\<exists>g i. (g, i) \<in> visited E \<and> i < length (segments g) \<and> p = prefixPath g i)"
    unfolding Inv_def by blast+
  have vis: "(g, i) \<in> visited E \<longleftrightarrow> g \<in> set E \<and> 0 < i \<and> i \<le> length (segments g)" for g i
    by (simp add: visited_def)
  have same_path: "f = g" if "f \<in> set E" "g \<in> set E" "path f = path g" for f g
  proof -
    from dist have "inj_on path (set E)"
      by (simp add: distinct_map)
    from inj_onD [OF this that(3) that(1) that(2)] show ?thesis .
  qed
  have no_file_prefix: False
    if "f \<in> set E" "type f = File" "(g, i) \<in> visited E" "i < length (segments g)"
      "path f = prefixPath g i" for f g i
  proof -
    from that(3) have g: "g \<in> set E" "0 < i" by (simp_all add: vis)
    have "segments f = take i (segments g)"
      using that(5) g(2) by (rule path_is_prefixPath)
    then have "strict_prefix (segments f) (segments g)"
      using take_strict_prefix [OF that(4)] by simp
    with nopre that(1,2) g(1) show False by blast
  qed
  have files: "\<exists>n. inTree t n \<and> node_path n = path f \<and> node_type n = File
                 \<and> node_file n = Some f \<and> children n = []"
    if f: "f \<in> set E" "type f = File" for f
  proof -
    have "(f, length (segments f)) \<in> visited E"
      using f(1) by (simp add: vis)
    from B [OF this] obtain n where n: "nodeMap t (path f) = Some n"
      unfolding prefixPath_full by auto
    from A [OF n] obtain g i where gi: "(g, i) \<in> visited E" "path f = prefixPath g i" "made g i n"
      and np: "node_path n = path f" by blast
    have i: "i = length (segments g)"
    proof (rule ccontr)
      assume "i \<noteq> length (segments g)"
      with gi(1) have "i < length (segments g)" by (simp add: vis)
      from no_file_prefix [OF f gi(1) this gi(2)] show False .
    qed
    then have "path f = path g"
      using gi(2) by (simp add: prefixPath_full)
    with f(1) gi(1) have fg: "f = g"
      by (intro same_path) (simp_all add: vis)
    have leaf: "children n = []"
    proof (rule ccontr)
      assume "children n \<noteq> []"
      then obtain c where "c \<in> set (children n)" by (cases "children n") auto
      from C [OF n this] obtain g' j where "(g', j) \<in> visited E" "j < length (segments g')"
        "path f = prefixPath g' j" by blast
      from no_file_prefix [OF f this] show False .
    qed
    from gi(3) i fg f(2) have "node_type n = File" "node_file n = Some f"
      by (simp_all add: made_def)
    with Inv_inTree [OF inv n] leaf show ?thesis by blast
  qed
  have file_nodes: "\<exists>f\<in>set E. type f = File \<and> node_file n = Some f \<and> node_path n = path f"
    if n: "inTree t n" "node_type n = File" for n
  proof -
    from inTree_key [OF inv n(1)] have "nodeMap t (node_path n) = Some n" by blast
    from A [OF this] obtain g i where gi: "(g, i) \<in> visited E" "node_path n = prefixPath g i"
      "made g i n" by blast
    have e: "i = length (segments g) \<and> type g = File"
    proof (rule ccontr)
      assume "\<not> ?thesis"
      with gi(3) have "node_type n = Dir" by (simp add: made_def)
      with n(2) show False by simp
    qed
    with gi(3) have "node_file n = Some g"
      by (simp add: made_def)
    moreover from gi(1) have "g \<in> set E"
      by (simp add: vis)
    moreover have "node_path n = path g"
      using gi(2) e by (simp add: prefixPath_full)
    ultimately show ?thesis
      using e by blast
  qed
  have unique: "n = n'" if "inTree t n" "inTree t n'" "node_path n = node_path n'" for n n'
  proof -
    from inTree_key [OF inv that(1)] have "nodeMap t (node_path n) = Some n" ..
    then have "nodeMap t (node_path n') = Some n"
      unfolding that(3) .
    moreover from inTree_key [OF inv that(2)] have "nodeMap t (node_path n') = Some n'" ..
    ultimately show ?thesis
      by (metis option.inject)
  qed
  have dirs: "\<exists>n. inTree t n \<and> node_path n = prefixPath f i \<and> node_type n = Dir"
    if f: "f \<in> set E" "0 < i" "i < length (segments f)" for f i
  proof -
    have v: "(f, i) \<in> visited E"
      using f by (simp add: vis)
    from B [OF v] obtain n where n: "nodeMap t (prefixPath f i) = Some n" by auto
    have "node_type n = Dir"
    proof (rule ccontr)
      assume "node_type n \<noteq> Dir"
      then have nf: "node_type n = File" by (cases "node_type n") auto
      from file_nodes [OF _ nf] Inv_inTree [OF inv n] obtain g
        where g: "g \<in> set E" "type g = File" "path g = prefixPath f i" by auto
      from no_file_prefix [OF g(1,2) v f(3) g(3)] show False .
    qed
    with Inv_inTree [OF inv n] show ?thesis by blast
  qed
  show ?thesis
    unfolding t_def [symmetric] using files file_nodes unique dirs by blast
qed

lemma filter_key_single:
  "distinct (map k xs) \<Longrightarrow> y \<in> set xs \<Longrightarrow> filter (\<lambda>x. k y = k x) xs = [y]"
proof (induction xs)
  case Nil
  then show ?case by simp
next
  case (Cons x xs)
  show ?case
  proof (cases "x = y")
    case True
    have "filter (\<lambda>x. k y = k x) xs = []"
      using Cons.prems(1) True by (auto simp: filter_empty_conv)
    with True show ?thesis by simp
  next
    case False
    with Cons.prems have y: "y \<in> set xs" by simp
    from Cons.prems(1) have "k x \<notin> k ` set xs" by simp
    with y have "k y \<noteq> k x" by (metis imageI)
    with Cons y show ?thesis by simp
  qed
qed

lemma sort_key_perm:
  assumes "distinct (map k xs)" "mset ys = mset xs"
  shows "sort_key k ys = sort_key k xs"
proof -
  have m: "mset (sort_key k ys) = mset xs"
    using assms by simp
  then have s: "set (sort_key k ys) = set xs"
    by (metis mset_eq_setD)
  have "mset (map k (sort_key k ys)) = mset (map k xs)"
    using m by (metis mset_map)
  with assms have d: "distinct (map k (sort_key k ys))"
    by (metis mset_eq_imp_distinct_iff)
  have "sort_key k xs = sort_key k ys"
  proof (rule properties_for_sort_key)
    show "mset (sort_key k ys) = mset xs" by (rule m)
    show "sorted (map k (sort_key k ys))" by simp
    show "filter (\<lambda>x. k y = k x) (sort_key k ys) = filter (\<lambda>x. k y = k x) xs"
      if "y \<in> set (sort_key k ys)" for y
    proof -
      from that s have "y \<in> set xs" by simp
      then have "filter (\<lambda>x. k y = k x) xs = [y]"
        using assms(1) by (intro filter_key_single)
      moreover have "filter (\<lambda>x. k y = k x) (sort_key k ys) = [y]"
        using d that by (intro filter_key_single)
      ultimately show ?thesis by simp
    qed
  qed
  then show ?thesis by simp
qed

text \<open>
  Claim C8, amended. When no two entries have paths of the same sort key, every
  permutation of the entries gives the same root array and the same store, hence the same
  tree; and for every list of entries, building from the sorted list gives what building
  from the list gives.
\<close>

theorem buildTree_order_independent:
  "(distinct (map (\<lambda>f. collate (path f)) E) \<and> mset E' = mset E
      \<longrightarrow> buildTree collate E' = buildTree collate E)
   \<and> buildTree collate (sort_key (\<lambda>f. collate (path f)) E) = buildTree collate E"
proof (intro conjI impI)
  assume "distinct (map (\<lambda>f. collate (path f)) E) \<and> mset E' = mset E"
  then have "sort_key (\<lambda>f. collate (path f)) E' = sort_key (\<lambda>f. collate (path f)) E"
    by (intro sort_key_perm) simp_all
  then show "buildTree collate E' = buildTree collate E"
    by (simp add: buildTree_def)
next
  show "buildTree collate (sort_key (\<lambda>f. collate (path f)) E) = buildTree collate E"
    by (simp add: buildTree_def sort_key_id_if_sorted)
qed

lemma codeUnits_le:
  "codeUnits ''a'' \<le> codeUnits ''a/b''" "\<not> codeUnits ''a/b'' \<le> codeUnits ''a''"
  "codeUnits ''a'' \<le> codeUnits ''a''"
  "codeUnits ''a/b.txt'' \<le> codeUnits ''a/c/d.txt''" "\<not> codeUnits ''a/c/d.txt'' \<le> codeUnits ''a/b.txt''"
  by (simp_all add: codeUnits_def)

lemma split_eval:
  "js_split (CHR ''/'') ''a'' = [''a'']" "js_split (CHR ''/'') ''a/b'' = [''a'', ''b'']"
  "js_split (CHR ''/'') ''a/b.txt'' = [''a'', ''b.txt'']"
  "js_split (CHR ''/'') ''a/c/d.txt'' = [''a'', ''c'', ''d.txt'']"
  by simp_all

lemma tree_file_dir:
  "buildTree codeUnits [entry ''a'' ''a'' File, entry ''a'' ''a'' Dir]
     = \<lparr>rootNodes = [''a''],
        nodeMap = [''a'' \<mapsto> \<lparr>node_name = ''a'', node_path = ''a'', node_type = File, children = [],
                               node_file = Some (entry ''a'' ''a'' File)\<rparr>]\<rparr>"
  by (simp add: buildTree_def entry_def codeUnits_le addFile_def split_eval visit.simps Let_def)

lemma tree_dir_file:
  "buildTree codeUnits [entry ''a'' ''a'' Dir, entry ''a'' ''a'' File]
     = \<lparr>rootNodes = [''a''],
        nodeMap = [''a'' \<mapsto> \<lparr>node_name = ''a'', node_path = ''a'', node_type = Dir, children = [],
                               node_file = None\<rparr>]\<rparr>"
  by (simp add: buildTree_def entry_def codeUnits_le addFile_def split_eval visit.simps Let_def)

lemma tree_nested_file:
  "buildTree codeUnits [entry ''b'' ''a/b'' File, entry ''a'' ''a'' File]
     = \<lparr>rootNodes = [''a''],
        nodeMap = [''a/b'' \<mapsto> \<lparr>node_name = ''b'', node_path = ''a/b'', node_type = File, children = [],
                               node_file = Some (entry ''b'' ''a/b'' File)\<rparr>,
                   ''a'' \<mapsto> \<lparr>node_name = ''a'', node_path = ''a'', node_type = File, children = [''a/b''],
                               node_file = Some (entry ''a'' ''a'' File)\<rparr>]\<rparr>"
  by (simp add: buildTree_def entry_def codeUnits_le addFile_def split_eval visit.simps Let_def fun_upd_twist)

text \<open>The example of the specification: the root \<open>a\<close> is a directory with the children
  \<open>b.txt\<close>, a file, and \<open>c\<close>, a directory whose child is the file \<open>d.txt\<close>.\<close>

lemma tree_example:
  "buildTree codeUnits [entry ''d.txt'' ''a/c/d.txt'' File, entry ''b.txt'' ''a/b.txt'' File]
     = \<lparr>rootNodes = [''a''],
        nodeMap = [''a/c/d.txt'' \<mapsto> \<lparr>node_name = ''d.txt'', node_path = ''a/c/d.txt'', node_type = File,
                               children = [], node_file = Some (entry ''d.txt'' ''a/c/d.txt'' File)\<rparr>,
                   ''a/c'' \<mapsto> \<lparr>node_name = ''c'', node_path = ''a/c'', node_type = Dir,
                               children = [''a/c/d.txt''], node_file = None\<rparr>,
                   ''a/b.txt'' \<mapsto> \<lparr>node_name = ''b.txt'', node_path = ''a/b.txt'', node_type = File,
                               children = [], node_file = Some (entry ''b.txt'' ''a/b.txt'' File)\<rparr>,
                   ''a'' \<mapsto> \<lparr>node_name = ''a'', node_path = ''a'', node_type = Dir,
                               children = [''a/b.txt'', ''a/c''], node_file = None\<rparr>]\<rparr>"
  by (simp add: buildTree_def entry_def codeUnits_le addFile_def split_eval visit.simps Let_def fun_upd_twist)

text \<open>
  Claim C1 as stated fails: for the file entries \<open>a\<close> and \<open>a/b\<close> the proper prefix \<open>a\<close>
  of \<open>a/b\<close> has no directory node. The node \<open>a\<close> is the file node of the first entry, and
  it is not a leaf: \<open>a/b\<close> is its child.
\<close>

theorem buildTree_prefix_counterexample:
  "prefixPath (entry ''b'' ''a/b'' File) 1 = ''a''
   \<and> length (segments (entry ''b'' ''a/b'' File)) = 2
   \<and> nodeMap (buildTree codeUnits [entry ''b'' ''a/b'' File, entry ''a'' ''a'' File]) ''a''
       = Some \<lparr>node_name = ''a'', node_path = ''a'', node_type = File, children = [''a/b''],
                node_file = Some (entry ''a'' ''a'' File)\<rparr>
   \<and> \<not> (\<exists>n. inTree (buildTree codeUnits [entry ''b'' ''a/b'' File, entry ''a'' ''a'' File]) n
            \<and> node_path n = ''a'' \<and> node_type n = Dir)"
proof (intro conjI)
  have s: "segments (entry ''b'' ''a/b'' File) = [''a'', ''b'']"
    by (simp add: segments_def entry_def)
  show "prefixPath (entry ''b'' ''a/b'' File) 1 = ''a''"
    unfolding prefixPath_def s by simp
  show "length (segments (entry ''b'' ''a/b'' File)) = 2"
    unfolding s by simp
  show "nodeMap (buildTree codeUnits [entry ''b'' ''a/b'' File, entry ''a'' ''a'' File]) ''a''
       = Some \<lparr>node_name = ''a'', node_path = ''a'', node_type = File, children = [''a/b''],
                node_file = Some (entry ''a'' ''a'' File)\<rparr>"
    unfolding tree_nested_file by simp
  show "\<not> (\<exists>n. inTree (buildTree codeUnits [entry ''b'' ''a/b'' File, entry ''a'' ''a'' File]) n
            \<and> node_path n = ''a'' \<and> node_type n = Dir)"
    unfolding tree_nested_file inTree_def by (auto split: if_splits)
qed

text \<open>
  Claim C1, amended, at the example of the specification: the entries \<open>a/b.txt\<close> and
  \<open>a/c/d.txt\<close> give file nodes for both and directory nodes \<open>a\<close> and \<open>a/c\<close>.
\<close>

theorem buildTree_files_and_directories_witness:
  "relativePath ''a/c/d.txt'' \<and> relativePath ''a/b.txt''
   \<and> distinct (map path [entry ''d.txt'' ''a/c/d.txt'' File, entry ''b.txt'' ''a/b.txt'' File])
   \<and> \<not> strict_prefix [''a'', ''b.txt''] [''a'', ''c'', ''d.txt'']
   \<and> \<not> strict_prefix [''a'', ''c'', ''d.txt''] [''a'', ''b.txt'']
   \<and> (\<exists>n. inTree (buildTree codeUnits [entry ''d.txt'' ''a/c/d.txt'' File, entry ''b.txt'' ''a/b.txt'' File]) n
          \<and> node_path n = ''a/b.txt'' \<and> node_type n = File
          \<and> node_file n = Some (entry ''b.txt'' ''a/b.txt'' File) \<and> children n = [])
   \<and> (\<exists>n. inTree (buildTree codeUnits [entry ''d.txt'' ''a/c/d.txt'' File, entry ''b.txt'' ''a/b.txt'' File]) n
          \<and> node_path n = ''a/c/d.txt'' \<and> node_type n = File
          \<and> node_file n = Some (entry ''d.txt'' ''a/c/d.txt'' File) \<and> children n = [])
   \<and> (\<exists>n. inTree (buildTree codeUnits [entry ''d.txt'' ''a/c/d.txt'' File, entry ''b.txt'' ''a/b.txt'' File]) n
          \<and> node_path n = ''a'' \<and> node_type n = Dir)
   \<and> (\<exists>n. inTree (buildTree codeUnits [entry ''d.txt'' ''a/c/d.txt'' File, entry ''b.txt'' ''a/b.txt'' File]) n
          \<and> node_path n = ''a/c'' \<and> node_type n = Dir)"
proof -
  define d where "d = entry ''d.txt'' ''a/c/d.txt'' File"
  define b where "b = entry ''b.txt'' ''a/b.txt'' File"
  have sd: "segments d = [''a'', ''c'', ''d.txt'']" and sb: "segments b = [''a'', ''b.txt'']"
    and pd: "path d = ''a/c/d.txt''" and pb: "path b = ''a/b.txt''"
    and ty: "type d = File" "type b = File"
    by (simp_all add: d_def b_def segments_def entry_def)
  have np: "\<not> strict_prefix [''a'', ''b.txt''] [''a'', ''c'', ''d.txt'']"
    "\<not> strict_prefix [''a'', ''c'', ''d.txt''] [''a'', ''b.txt'']"
    "\<not> strict_prefix [''a'', ''c'', ''d.txt''] [''a'', ''c'', ''d.txt'']"
    "\<not> strict_prefix [''a'', ''b.txt''] [''a'', ''b.txt'']"
    by (simp_all add: strict_prefix_def)
  have rel: "\<forall>f\<in>set [d, b]. relativePath (path f)"
    by (simp add: pd pb relativePath_def)
  have dist: "distinct (map path [d, b])"
    by (simp add: pd pb)
  have nopre: "\<forall>f\<in>set [d, b]. \<forall>g\<in>set [d, b]. type f = File \<longrightarrow>
      \<not> strict_prefix (segments f) (segments g)"
    by (simp add: sd sb np)
  note inst = buildTree_files_and_directories [of "[d, b]" codeUnits, OF rel dist nopre]
  have p1: "prefixPath d 1 = ''a''" and p2: "prefixPath d 2 = ''a/c''"
    unfolding prefixPath_def sd by (simp_all add: numeral_2_eq_2)
  from inst have files: "\<And>f. f \<in> set [d, b] \<Longrightarrow> type f = File \<Longrightarrow>
      \<exists>n. inTree (buildTree codeUnits [d, b]) n \<and> node_path n = path f \<and> node_type n = File
           \<and> node_file n = Some f \<and> children n = []"
    and dirs: "\<And>f i. f \<in> set [d, b] \<Longrightarrow> 0 < i \<Longrightarrow> i < length (segments f) \<Longrightarrow>
      \<exists>n. inTree (buildTree codeUnits [d, b]) n \<and> node_path n = prefixPath f i \<and> node_type n = Dir"
    by blast+
  have "\<exists>n. inTree (buildTree codeUnits [d, b]) n \<and> node_path n = ''a/b.txt'' \<and> node_type n = File
           \<and> node_file n = Some b \<and> children n = []"
    using files [of b] ty pb by simp
  moreover have "\<exists>n. inTree (buildTree codeUnits [d, b]) n \<and> node_path n = ''a/c/d.txt'' \<and> node_type n = File
           \<and> node_file n = Some d \<and> children n = []"
    using files [of d] ty pd by simp
  moreover have "\<exists>n. inTree (buildTree codeUnits [d, b]) n \<and> node_path n = ''a'' \<and> node_type n = Dir"
    using dirs [of d 1] sd p1 by simp
  moreover have "\<exists>n. inTree (buildTree codeUnits [d, b]) n \<and> node_path n = ''a/c'' \<and> node_type n = Dir"
    using dirs [of d 2] sd p2 by simp
  moreover have "relativePath ''a/c/d.txt'' \<and> relativePath ''a/b.txt''"
    by (simp add: relativePath_def)
  ultimately show ?thesis
    using dist np unfolding d_def [symmetric] b_def [symmetric] by blast
qed

text \<open>
  Claim C8 as stated fails: a file entry and a directory entry of the same path \<open>a\<close>
  compare equal, the stable sort keeps their order, and the first one decides the type of
  the node. The two orders give a file node and a directory node.
\<close>

theorem buildTree_order_counterexample:
  "mset [entry ''a'' ''a'' Dir, entry ''a'' ''a'' File] = mset [entry ''a'' ''a'' File, entry ''a'' ''a'' Dir]
   \<and> nodeMap (buildTree codeUnits [entry ''a'' ''a'' File, entry ''a'' ''a'' Dir]) ''a''
       = Some \<lparr>node_name = ''a'', node_path = ''a'', node_type = File, children = [],
                node_file = Some (entry ''a'' ''a'' File)\<rparr>
   \<and> nodeMap (buildTree codeUnits [entry ''a'' ''a'' Dir, entry ''a'' ''a'' File]) ''a''
       = Some \<lparr>node_name = ''a'', node_path = ''a'', node_type = Dir, children = [],
                node_file = None\<rparr>
   \<and> buildTree codeUnits [entry ''a'' ''a'' Dir, entry ''a'' ''a'' File]
       \<noteq> buildTree codeUnits [entry ''a'' ''a'' File, entry ''a'' ''a'' Dir]"
proof (intro conjI)
  show "mset [entry ''a'' ''a'' Dir, entry ''a'' ''a'' File] = mset [entry ''a'' ''a'' File, entry ''a'' ''a'' Dir]"
    by (simp add: add_mset_commute)
  show f: "nodeMap (buildTree codeUnits [entry ''a'' ''a'' File, entry ''a'' ''a'' Dir]) ''a''
       = Some \<lparr>node_name = ''a'', node_path = ''a'', node_type = File, children = [],
                node_file = Some (entry ''a'' ''a'' File)\<rparr>"
    unfolding tree_file_dir by simp
  show d: "nodeMap (buildTree codeUnits [entry ''a'' ''a'' Dir, entry ''a'' ''a'' File]) ''a''
       = Some \<lparr>node_name = ''a'', node_path = ''a'', node_type = Dir, children = [],
                node_file = None\<rparr>"
    unfolding tree_dir_file by simp
  show "buildTree codeUnits [entry ''a'' ''a'' Dir, entry ''a'' ''a'' File]
       \<noteq> buildTree codeUnits [entry ''a'' ''a'' File, entry ''a'' ''a'' Dir]"
  proof
    assume "buildTree codeUnits [entry ''a'' ''a'' Dir, entry ''a'' ''a'' File]
       = buildTree codeUnits [entry ''a'' ''a'' File, entry ''a'' ''a'' Dir]"
    with f d show False by simp
  qed
qed

text \<open>
  Claim C8, amended, at the two entries of the specification's example in both orders.
\<close>

theorem buildTree_order_independent_witness:
  "distinct (map (\<lambda>f. codeUnits (path f)) [entry ''d.txt'' ''a/c/d.txt'' File, entry ''b.txt'' ''a/b.txt'' File])
   \<and> mset [entry ''b.txt'' ''a/b.txt'' File, entry ''d.txt'' ''a/c/d.txt'' File]
       = mset [entry ''d.txt'' ''a/c/d.txt'' File, entry ''b.txt'' ''a/b.txt'' File]
   \<and> buildTree codeUnits [entry ''b.txt'' ''a/b.txt'' File, entry ''d.txt'' ''a/c/d.txt'' File]
       = buildTree codeUnits [entry ''d.txt'' ''a/c/d.txt'' File, entry ''b.txt'' ''a/b.txt'' File]
   \<and> rootNodes (buildTree codeUnits [entry ''b.txt'' ''a/b.txt'' File, entry ''d.txt'' ''a/c/d.txt'' File])
       = [''a'']"
proof -
  have h: "distinct (map (\<lambda>f. codeUnits (path f)) [entry ''d.txt'' ''a/c/d.txt'' File, entry ''b.txt'' ''a/b.txt'' File])
   \<and> mset [entry ''b.txt'' ''a/b.txt'' File, entry ''d.txt'' ''a/c/d.txt'' File]
       = mset [entry ''d.txt'' ''a/c/d.txt'' File, entry ''b.txt'' ''a/b.txt'' File]"
    by (simp add: entry_def codeUnits_def add_mset_commute)
  with buildTree_order_independent [of codeUnits
         "[entry ''d.txt'' ''a/c/d.txt'' File, entry ''b.txt'' ''a/b.txt'' File]"
         "[entry ''b.txt'' ''a/b.txt'' File, entry ''d.txt'' ''a/c/d.txt'' File]"]
  have e: "buildTree codeUnits [entry ''b.txt'' ''a/b.txt'' File, entry ''d.txt'' ''a/c/d.txt'' File]
       = buildTree codeUnits [entry ''d.txt'' ''a/c/d.txt'' File, entry ''b.txt'' ''a/b.txt'' File]"
    by blast
  have "rootNodes (buildTree codeUnits [entry ''b.txt'' ''a/b.txt'' File, entry ''d.txt'' ''a/c/d.txt'' File]) = [''a'']"
    unfolding e tree_example by simp
  with h e show ?thesis by blast
qed

end
